theory Spec2Isabelle
  imports Complex_Main
begin

section \<open>Conway's Game of Life on a toroidal grid: the model of conway.py\<close>

text \<open>
  The program keeps its grid in mutable Python objects: a \<open>Grid\<close> instance whose attribute
  \<open>data\<close> refers to a list of rows, each row being a list of cells of its own. \<open>step\<close>
  works on a \<open>deepcopy\<close> of its argument and \<open>add_pattern\<close> writes into its argument, so
  the model keeps an explicit store with one address space per kind of object, and every
  function takes the store and returns the new one. A Python exception is the left
  summand of the result.
\<close>

subsection \<open>Exceptions and results\<close>

datatype error = ZeroDivisionError | IndexError | DanglingReference

text \<open>
  \<open>ZeroDivisionError\<close> and \<open>IndexError\<close> are the two exceptions the program can raise.
  \<open>DanglingReference\<close> is no Python exception: it is the result of following an address
  at which the store holds no object, which no store made by the program contains.
\<close>

definition bind_r :: "error + 'a \<Rightarrow> ('a \<Rightarrow> error + 'b) \<Rightarrow> error + 'b" where
  "bind_r m f = (case m of Inl e \<Rightarrow> Inl e | Inr v \<Rightarrow> f v)"

subsection \<open>Python's integers, lists and ranges\<close>

definition py_mod :: "int \<Rightarrow> int \<Rightarrow> error + int" where
  \<comment> \<open>\<open>a % b\<close>: the result has the sign of \<open>b\<close>, as \<open>mod\<close> on \<open>int\<close> has\<close>
  "py_mod a b = (if b = 0 then Inl ZeroDivisionError else Inr (a mod b))"

definition py_index :: "'a list \<Rightarrow> int \<Rightarrow> error + 'a" where
  \<comment> \<open>\<open>xs[i]\<close>: an index from \<open>-len(xs)\<close> to \<open>-1\<close> counts from the end\<close>
  "py_index xs i =
     (if 0 \<le> i \<and> i < int (length xs) then Inr (xs ! nat i)
      else if - int (length xs) \<le> i \<and> i < 0 then Inr (xs ! nat (int (length xs) + i))
      else Inl IndexError)"

definition py_store :: "'a list \<Rightarrow> int \<Rightarrow> 'a \<Rightarrow> error + 'a list" where
  \<comment> \<open>\<open>xs[i] = v\<close>\<close>
  "py_store xs i v =
     (if 0 \<le> i \<and> i < int (length xs) then Inr (xs[nat i := v])
      else if - int (length xs) \<le> i \<and> i < 0 then Inr (xs[nat (int (length xs) + i) := v])
      else Inl IndexError)"

definition py_range :: "int \<Rightarrow> int list" where
  \<comment> \<open>\<open>range(n)\<close>, empty when \<open>n \<le> 0\<close>\<close>
  "py_range n = map int [0..<nat n]"

definition py_int :: "real \<Rightarrow> int" where
  \<comment> \<open>\<open>int(x)\<close> on a float: truncation towards zero\<close>
  "py_int x = (if 0 \<le> x then \<lfloor>x\<rfloor> else \<lceil>x\<rceil>)"

subsection \<open>Constants\<close>

text \<open>A Python string is the list of its code points.\<close>

type_synonym ustr = "nat list"

definition EMPTY :: ustr where
  "EMPTY = concat (replicate 2 [0x2591])"

definition FILLED :: ustr where
  "FILLED = concat (replicate 2 [0x2593])"

definition PATTERN_GLIDER :: "(int \<times> int) list" where
  "PATTERN_GLIDER = [(2, 2), (2, 1), (2, 0), (1, 0), (0, 1)]"

definition PATTERN_LWSS :: "(int \<times> int) list" where
  "PATTERN_LWSS = [(1, 0), (4, 0), (0, 1), (0, 2), (4, 2), (0, 3), (1, 3), (2, 3), (3, 3)]"

definition PATTERN_ACORN :: "(int \<times> int) list" where
  "PATTERN_ACORN = [(1, 0), (3, 1), (0, 2), (1, 2), (4, 2), (5, 2), (6, 2)]"

definition PATTERN_BLOCK :: "(int \<times> int) list" where
  "PATTERN_BLOCK = [(0, 0), (1, 0), (0, 1), (1, 1)]"

definition PATTERN_QUEEN :: "(int \<times> int) list" where
  "PATTERN_QUEEN = [(4, 0), (2, 1), (4, 1), (1, 2), (3, 2), (0, 3), (3, 3),
     (1, 4), (3, 4), (2, 5), (4, 5), (4, 6)]"

subsection \<open>The store\<close>

type_synonym addr = nat

record Grid =
  width :: int
  height :: int
  data :: addr
  generation :: int

text \<open>
  An address is the position of the object in the list of the objects of its kind, and
  a new object is appended at the end. \<open>grids\<close> holds the \<open>Grid\<close> instances, \<open>outers\<close>
  the lists that \<open>Grid.data\<close> refers to (their items are the addresses of rows), and
  \<open>rows\<close> the row lists (their items are strings, which are immutable values).
\<close>

record heap =
  grids :: "Grid list"
  outers :: "addr list list"
  rows :: "ustr list list"

definition empty_heap :: heap where
  "empty_heap = \<lparr>grids = [], outers = [], rows = []\<rparr>"

definition deref :: "'a list \<Rightarrow> addr \<Rightarrow> error + 'a" where
  "deref objs a = (if a < length objs then Inr (objs ! a) else Inl DanglingReference)"

subsection \<open>class Grid\<close>

definition Grid_init :: "heap \<Rightarrow> int \<Rightarrow> int \<Rightarrow> error + (addr \<times> heap)" where
  \<comment> \<open>\<open>Grid(width, height)\<close>: the comprehension makes one new row list per \<open>x\<close>\<close>
  "Grid_init h w ht =
     (let new_rows = map (\<lambda>x. concat (replicate (nat w) [EMPTY])) (py_range ht);
          row_addrs = [length (rows h)..<length (rows h) + length new_rows];
          self = \<lparr>width = w, height = ht, data = length (outers h), generation = 0\<rparr>
      in Inr (length (grids h),
              \<lparr>grids = grids h @ [self],
               outers = outers h @ [row_addrs],
               rows = rows h @ new_rows\<rparr>))"

definition getitem :: "heap \<Rightarrow> addr \<Rightarrow> int \<times> int \<Rightarrow> error + ustr" where
  \<comment> \<open>\<open>self[t]\<close>\<close>
  "getitem h self t =
     bind_r (deref (grids h) self) (\<lambda>g.
     bind_r (py_mod (fst t) (width g)) (\<lambda>t0.
     bind_r (py_mod (snd t) (height g)) (\<lambda>t1.
     bind_r (deref (outers h) (data g)) (\<lambda>d.
     bind_r (py_index d t1) (\<lambda>r.
     bind_r (deref (rows h) r) (\<lambda>row.
     py_index row t0))))))"

definition setitem :: "heap \<Rightarrow> addr \<Rightarrow> int \<times> int \<Rightarrow> ustr \<Rightarrow> error + heap" where
  \<comment> \<open>\<open>self[t] = value\<close>: the row list is updated in place\<close>
  "setitem h self t v =
     bind_r (deref (grids h) self) (\<lambda>g.
     bind_r (py_mod (fst t) (width g)) (\<lambda>t0.
     bind_r (py_mod (snd t) (height g)) (\<lambda>t1.
     bind_r (deref (outers h) (data g)) (\<lambda>d.
     bind_r (py_index d t1) (\<lambda>r.
     bind_r (deref (rows h) r) (\<lambda>row.
     bind_r (py_store row t0 v) (\<lambda>row'.
     Inr (h\<lparr>rows := (rows h)[r := row']\<rparr>))))))))"

subsection \<open>copy.deepcopy on a Grid\<close>

text \<open>
  \<open>deepcopy\<close> is the standard library's: it makes a new instance, a new \<open>data\<close> list and
  a new list for every row, and keeps a memo so that a row list met twice is copied once.
  Strings and integers are atomic and are not copied.
\<close>

fun deepcopy_rows :: "heap \<Rightarrow> (addr \<times> addr) list \<Rightarrow> addr list \<Rightarrow> error + (addr list \<times> heap)" where
  "deepcopy_rows h memo [] = Inr ([], h)"
| "deepcopy_rows h memo (r # rs) =
     (case map_of memo r of
        Some r' \<Rightarrow>
          bind_r (deepcopy_rows h memo rs) (\<lambda>(rs', h'). Inr (r' # rs', h'))
      | None \<Rightarrow>
          bind_r (deref (rows h) r) (\<lambda>row.
          bind_r (deepcopy_rows (h\<lparr>rows := rows h @ [row]\<rparr>) ((r, length (rows h)) # memo) rs)
            (\<lambda>(rs', h'). Inr (length (rows h) # rs', h'))))"

definition deepcopy :: "heap \<Rightarrow> addr \<Rightarrow> error + (addr \<times> heap)" where
  "deepcopy h a =
     bind_r (deref (grids h) a) (\<lambda>g.
     bind_r (deref (outers h) (data g)) (\<lambda>d.
     bind_r (deepcopy_rows h [] d) (\<lambda>(d', h1).
     Inr (length (grids h1),
          h1\<lparr>grids := grids h1 @ [g\<lparr>data := length (outers h1)\<rparr>],
             outers := outers h1 @ [d']\<rparr>))))"

subsection \<open>round_out\<close>

text \<open>
  Floats are modelled as real numbers. \<open>round_out\<close> itself is exact on doubles (\<open>abs\<close>,
  \<open>ceil\<close>, \<open>int\<close> and the quotient of a double by its own magnitude have no rounding
  error), and \<open>10**-10\<close> is the double nearest to \<open>1 / 10 ^ 10\<close>. In \<open>count_loop\<close> below \<open>cos\<close>,
  \<open>sin\<close> and \<open>pi\<close> are the exact ones; \<open>count_loop_with\<close> takes the computed values instead.
\<close>

definition round_out :: "real \<Rightarrow> int" where
  "round_out n0 =
     (let n = (if \<bar>n0\<bar> < 1 / 10 ^ 10 then 0 else n0)
      in if n \<noteq> 0 then \<lceil>\<bar>n\<bar>\<rceil> * py_int (n / \<bar>n\<bar>) else 0)"

subsection \<open>step and add_pattern\<close>

fun for_each :: "'a list \<Rightarrow> ('a \<Rightarrow> heap \<Rightarrow> error + heap) \<Rightarrow> heap \<Rightarrow> error + heap" where
  \<comment> \<open>\<open>for x in xs: body\<close>, for a body that changes the store only\<close>
  "for_each [] body h = Inr h"
| "for_each (x # xs) body h = bind_r (body x h) (for_each xs body)"

fun count_loop :: "heap \<Rightarrow> addr \<Rightarrow> int \<Rightarrow> int \<Rightarrow> int list \<Rightarrow> int \<Rightarrow> error + int" where
  \<comment> \<open>the loop \<open>for n in range(8)\<close> of \<open>step\<close>, with the running value of \<open>neighbours\<close>\<close>
  "count_loop h grid i j [] neighbours = Inr neighbours"
| "count_loop h grid i j (n # ns) neighbours =
     (let x = i + round_out (cos (of_int n * pi / 4));
          y = j + round_out (sin (of_int n * pi / 4))
      in bind_r (getitem h grid (x, y)) (\<lambda>c.
         count_loop h grid i j ns (if c = FILLED then neighbours + 1 else neighbours)))"

definition step_cell :: "addr \<Rightarrow> addr \<Rightarrow> int \<Rightarrow> int \<Rightarrow> heap \<Rightarrow> error + heap" where
  \<comment> \<open>the body of the loop over \<open>j\<close>\<close>
  "step_cell grid next i j h =
     bind_r (count_loop h grid i j (py_range 8) 0) (\<lambda>neighbours.
     bind_r (getitem h grid (i, j)) (\<lambda>c.
       if c = FILLED then
         (if \<not> (1 < neighbours \<and> neighbours < 4) then setitem h next (i, j) EMPTY
          else Inr h)
       else if neighbours = 3 then setitem h next (i, j) FILLED
       else Inr h))"

definition step :: "heap \<Rightarrow> addr \<Rightarrow> error + (addr \<times> heap)" where
  "step h grid =
     bind_r (deepcopy h grid) (\<lambda>(next, h1).
     bind_r (deref (grids h1) next) (\<lambda>n.
     let h2 = h1\<lparr>grids := (grids h1)[next := n\<lparr>generation := generation n + 1\<rparr>]\<rparr> in
     bind_r (deref (grids h2) grid) (\<lambda>g.
     bind_r (for_each (py_range (width g)) (\<lambda>i h.
               bind_r (deref (grids h) grid) (\<lambda>g.
               for_each (py_range (height g)) (step_cell grid next i) h)) h2) (\<lambda>h3.
     Inr (next, h3)))))"

definition add_pattern :: "heap \<Rightarrow> addr \<Rightarrow> (int \<times> int) list \<Rightarrow> int \<Rightarrow> int \<Rightarrow> error + heap" where
  "add_pattern h grid pattern x y =
     for_each pattern (\<lambda>t h. setitem h grid (x + fst t, y + snd t) FILLED) h"

subsection \<open>step over computed cosines and sines\<close>

text \<open>
  \<open>cos(n * pi / 4)\<close> and \<open>sin(n * pi / 4)\<close> are computed in doubles, and the doubles are not
  the exact values: the cosine at \<open>n = 2\<close> is about \<open>6.1e-17\<close>, not 0. The definitions below
  are \<open>count_loop\<close>, \<open>step_cell\<close> and \<open>step\<close> again, with the computed values of the two
  expressions as parameters, so that what is proved of them holds for whatever the
  platform computes within the stated accuracy.
\<close>

fun count_loop_with ::
  "(int \<Rightarrow> real) \<Rightarrow> (int \<Rightarrow> real) \<Rightarrow> heap \<Rightarrow> addr \<Rightarrow> int \<Rightarrow> int \<Rightarrow> int list \<Rightarrow> int \<Rightarrow> error + int" where
  \<comment> \<open>\<open>count_loop\<close> with the doubles of \<open>cos(n * pi / 4)\<close> and \<open>sin(n * pi / 4)\<close> as \<open>fcos n\<close> and \<open>fsin n\<close>\<close>
  "count_loop_with fcos fsin h grid i j [] neighbours = Inr neighbours"
| "count_loop_with fcos fsin h grid i j (n # ns) neighbours =
     (let x = i + round_out (fcos n);
          y = j + round_out (fsin n)
      in bind_r (getitem h grid (x, y)) (\<lambda>c.
         count_loop_with fcos fsin h grid i j ns
           (if c = FILLED then neighbours + 1 else neighbours)))"

definition step_cell_with ::
  "(int \<Rightarrow> real) \<Rightarrow> (int \<Rightarrow> real) \<Rightarrow> addr \<Rightarrow> addr \<Rightarrow> int \<Rightarrow> int \<Rightarrow> heap \<Rightarrow> error + heap" where
  \<comment> \<open>\<open>step_cell\<close> over \<open>count_loop_with\<close>\<close>
  "step_cell_with fcos fsin grid next i j h =
     bind_r (count_loop_with fcos fsin h grid i j (py_range 8) 0) (\<lambda>neighbours.
     bind_r (getitem h grid (i, j)) (\<lambda>c.
       if c = FILLED then
         (if \<not> (1 < neighbours \<and> neighbours < 4) then setitem h next (i, j) EMPTY
          else Inr h)
       else if neighbours = 3 then setitem h next (i, j) FILLED
       else Inr h))"

definition step_with ::
  "(int \<Rightarrow> real) \<Rightarrow> (int \<Rightarrow> real) \<Rightarrow> heap \<Rightarrow> addr \<Rightarrow> error + (addr \<times> heap)" where
  \<comment> \<open>\<open>step\<close> over \<open>step_cell_with\<close>\<close>
  "step_with fcos fsin h grid =
     bind_r (deepcopy h grid) (\<lambda>(next, h1).
     bind_r (deref (grids h1) next) (\<lambda>n.
     let h2 = h1\<lparr>grids := (grids h1)[next := n\<lparr>generation := generation n + 1\<rparr>]\<rparr> in
     bind_r (deref (grids h2) grid) (\<lambda>g.
     bind_r (for_each (py_range (width g)) (\<lambda>i h.
               bind_r (deref (grids h) grid) (\<lambda>g.
               for_each (py_range (height g)) (step_cell_with fcos fsin grid next i) h)) h2) (\<lambda>h3.
     Inr (next, h3)))))"

definition accurate :: "(int \<Rightarrow> real) \<Rightarrow> (int \<Rightarrow> real) \<Rightarrow> bool" where
  \<comment> \<open>the eight computed values have magnitude at most 1 and an error of at most \<open>1 / 10 ^ 11\<close>\<close>
  "accurate fcos fsin \<longleftrightarrow>
     list_all (\<lambda>n. \<bar>fcos n\<bar> \<le> 1 \<and> \<bar>fcos n - cos (of_int n * pi / 4)\<bar> \<le> 1 / 10 ^ 11 \<and>
                   \<bar>fsin n\<bar> \<le> 1 \<and> \<bar>fsin n - sin (of_int n * pi / 4)\<bar> \<le> 1 / 10 ^ 11)
       (py_range 8)"

definition double_cos :: "int \<Rightarrow> real" where
  \<comment> \<open>the doubles of \<open>cos(n * pi / 4)\<close> for \<open>n\<close> from 0 to 7 under CPython on x86-64 with glibc\<close>
  "double_cos n =
     [1, 6369051672525773 / 2 ^ 53, 4967757600021511 / 2 ^ 106, - (1592262918131443 / 2 ^ 51),
      - 1, - (3184525836262887 / 2 ^ 52), - (3725818200016133 / 2 ^ 104),
      6369051672525771 / 2 ^ 53] ! nat n"

definition double_sin :: "int \<Rightarrow> real" where
  \<comment> \<open>the doubles of \<open>sin(n * pi / 4)\<close> for \<open>n\<close> from 0 to 7 under CPython on x86-64 with glibc\<close>
  "double_sin n =
     [0, 1592262918131443 / 2 ^ 51, 1, 6369051672525773 / 2 ^ 53, 4967757600021511 / 2 ^ 105,
      - (1592262918131443 / 2 ^ 51), - 1, - (3184525836262887 / 2 ^ 52)] ! nat n"

subsection \<open>The neighbour offsets: the program's enumeration and the specification's table\<close>

definition neighbour_offset :: "int \<Rightarrow> int \<times> int" where
  \<comment> \<open>what \<open>count_loop\<close> adds to \<open>(i, j)\<close> in round \<open>n\<close>, a name for the proofs\<close>
  "neighbour_offset n =
     (round_out (cos (of_int n * pi / 4)), round_out (sin (of_int n * pi / 4)))"

definition spec_moore_offsets :: "(int \<times> int) list" where
  \<comment> \<open>the fixed table of the specification\<close>
  "spec_moore_offsets = [(1, 0), (1, 1), (0, 1), (- 1, 1), (- 1, 0), (- 1, - 1), (0, - 1), (1, - 1)]"

text \<open>
  The specification asks for the offsets as a fixed table of eight integer pairs. The next
  three definitions follow its words: they are \<open>step\<close> with the trigonometric enumeration
  replaced by a loop over such a table.
\<close>

fun spec_count_loop :: "heap \<Rightarrow> addr \<Rightarrow> int \<Rightarrow> int \<Rightarrow> (int \<times> int) list \<Rightarrow> int \<Rightarrow> error + int" where
  \<comment> \<open>the count of the specification: a loop over a fixed list of integer offset pairs\<close>
  "spec_count_loop h grid i j [] neighbours = Inr neighbours"
| "spec_count_loop h grid i j (d # ds) neighbours =
     bind_r (getitem h grid (i + fst d, j + snd d)) (\<lambda>c.
     spec_count_loop h grid i j ds (if c = FILLED then neighbours + 1 else neighbours))"

definition spec_step_cell :: "addr \<Rightarrow> addr \<Rightarrow> int \<Rightarrow> int \<Rightarrow> heap \<Rightarrow> error + heap" where
  \<comment> \<open>the body of the loop over \<open>j\<close>, counting over the fixed table\<close>
  "spec_step_cell grid next i j h =
     bind_r (spec_count_loop h grid i j spec_moore_offsets 0) (\<lambda>neighbours.
     bind_r (getitem h grid (i, j)) (\<lambda>c.
       if c = FILLED then
         (if \<not> (1 < neighbours \<and> neighbours < 4) then setitem h next (i, j) EMPTY
          else Inr h)
       else if neighbours = 3 then setitem h next (i, j) FILLED
       else Inr h))"

definition spec_step :: "heap \<Rightarrow> addr \<Rightarrow> error + (addr \<times> heap)" where
  \<comment> \<open>\<open>step\<close> as the specification words it, with the fixed table\<close>
  "spec_step h grid =
     bind_r (deepcopy h grid) (\<lambda>(next, h1).
     bind_r (deref (grids h1) next) (\<lambda>n.
     let h2 = h1\<lparr>grids := (grids h1)[next := n\<lparr>generation := generation n + 1\<rparr>]\<rparr> in
     bind_r (deref (grids h2) grid) (\<lambda>g.
     bind_r (for_each (py_range (width g)) (\<lambda>i h.
               bind_r (deref (grids h) grid) (\<lambda>g.
               for_each (py_range (height g)) (spec_step_cell grid next i) h)) h2) (\<lambda>h3.
     Inr (next, h3)))))"

subsection \<open>Well-formed grids and the frame of an operation\<close>

definition grid_rows :: "heap \<Rightarrow> addr \<Rightarrow> addr list" where
  \<comment> \<open>the addresses of the rows of the grid at \<open>a\<close>\<close>
  "grid_rows h a = outers h ! data (grids h ! a)"

definition cells :: "heap \<Rightarrow> addr \<Rightarrow> ustr list list" where
  \<comment> \<open>the value of \<open>self.data\<close>, rows first\<close>
  "cells h a = map (\<lambda>r. rows h ! r) (grid_rows h a)"

definition valid_grid :: "heap \<Rightarrow> addr \<Rightarrow> bool" where
  \<comment> \<open>positive dimensions, \<open>height\<close> row lists of their own, each of \<open>width\<close> cells\<close>
  "valid_grid h a \<longleftrightarrow>
     a < length (grids h) \<and>
     0 < width (grids h ! a) \<and> 0 < height (grids h ! a) \<and>
     data (grids h ! a) < length (outers h) \<and>
     int (length (grid_rows h a)) = height (grids h ! a) \<and>
     distinct (grid_rows h a) \<and>
     list_all (\<lambda>r. r < length (rows h) \<and> int (length (rows h ! r)) = width (grids h ! a))
       (grid_rows h a)"

definition preserved :: "'a list \<Rightarrow> 'a list \<Rightarrow> bool" where
  \<comment> \<open>every object of the first store is in the second, at its address and unaltered\<close>
  "preserved xs xs' \<longleftrightarrow> take (length xs) xs' = xs"

definition objects_preserved :: "heap \<Rightarrow> heap \<Rightarrow> bool" where
  "objects_preserved h h' \<longleftrightarrow>
     preserved (grids h) (grids h') \<and> preserved (outers h) (outers h') \<and>
     preserved (rows h) (rows h')"

definition all_cells :: "heap \<Rightarrow> addr \<Rightarrow> (int \<Rightarrow> int \<Rightarrow> error + ustr \<Rightarrow> bool) \<Rightarrow> bool" where
  \<comment> \<open>\<open>p x y (self[x, y])\<close> for every cell \<open>(x, y)\<close> of \<open>[0, width) \<times> [0, height)\<close>\<close>
  "all_cells h a p \<longleftrightarrow>
     list_all (\<lambda>x. list_all (\<lambda>y. p x y (getitem h a (x, y)))
       (py_range (height (grids h ! a)))) (py_range (width (grids h ! a)))"

definition filled_neighbours :: "heap \<Rightarrow> addr \<Rightarrow> int \<Rightarrow> int \<Rightarrow> int" where
  \<comment> \<open>the Moore-neighbour count of the specification, read through \<open>getitem\<close>\<close>
  "filled_neighbours h a i j =
     int (length (filter (\<lambda>(dx, dy). getitem h a (i + dx, j + dy) = Inr FILLED)
       spec_moore_offsets))"

subsection \<open>The next generation as a function of the cell matrix\<close>

definition cell_at :: "ustr list list \<Rightarrow> int \<Rightarrow> int \<Rightarrow> int \<Rightarrow> int \<Rightarrow> ustr" where
  "cell_at cs W H x y = cs ! nat (y mod H) ! nat (x mod W)"

definition count_at :: "ustr list list \<Rightarrow> int \<Rightarrow> int \<Rightarrow> int \<Rightarrow> int \<Rightarrow> int" where
  "count_at cs W H i j =
     int (length (filter (\<lambda>(dx, dy). cell_at cs W H (i + dx) (j + dy) = FILLED)
       spec_moore_offsets))"

definition new_cell :: "ustr list list \<Rightarrow> int \<Rightarrow> int \<Rightarrow> int \<Rightarrow> int \<Rightarrow> ustr" where
  "new_cell cs W H i j =
     (let c = cell_at cs W H i j; n = count_at cs W H i j
      in if c = FILLED then (if 1 < n \<and> n < 4 then c else EMPTY)
         else if n = 3 then FILLED else c)"

definition partial_cells ::
  "ustr list list \<Rightarrow> int \<Rightarrow> int \<Rightarrow> (int \<times> int) set \<Rightarrow> ustr list list" where
  \<comment> \<open>the copy while \<open>step\<close> runs: the cells of \<open>P\<close> are done, the others still hold the old value\<close>
  "partial_cells cs W H P =
     map (\<lambda>j. map (\<lambda>i. if (int i, int j) \<in> P then new_cell cs W H (int i) (int j)
                          else cs ! j ! i) [0..<nat W]) [0..<nat H]"

definition next_cells :: "ustr list list \<Rightarrow> int \<Rightarrow> int \<Rightarrow> ustr list list" where
  "next_cells cs W H =
     map (\<lambda>j. map (\<lambda>i. new_cell cs W H (int i) (int j)) [0..<nat W]) [0..<nat H]"

definition step_heap :: "heap \<Rightarrow> addr \<Rightarrow> ustr list list \<Rightarrow> heap" where
  \<comment> \<open>the store \<open>h\<close> with a copy of the grid at \<open>a\<close>, one generation on and with cells \<open>M\<close>\<close>
  "step_heap h a M =
     \<lparr>grids = grids h @ [(grids h ! a)\<lparr>data := length (outers h),
                                       generation := generation (grids h ! a) + 1\<rparr>],
      outers = outers h @ [[length (rows h)..<length (rows h) + length M]],
      rows = rows h @ M\<rparr>"

subsection \<open>An example store\<close>

definition blinker_store :: heap where
  \<comment> \<open>one 5 by 5 grid, at address 0, with the cells (1,2), (2,2) and (3,2) filled\<close>
  "blinker_store =
     \<lparr>grids = [\<lparr>width = 5, height = 5, data = 0, generation = 0\<rparr>],
      outers = [[0, 1, 2, 3, 4]],
      rows = [[EMPTY, EMPTY, EMPTY, EMPTY, EMPTY],
              [EMPTY, EMPTY, EMPTY, EMPTY, EMPTY],
              [EMPTY, FILLED, FILLED, FILLED, EMPTY],
              [EMPTY, EMPTY, EMPTY, EMPTY, EMPTY],
              [EMPTY, EMPTY, EMPTY, EMPTY, EMPTY]]\<rparr>"


definition single_store :: heap where
  \<comment> \<open>one 1 by 1 grid, at address 0, whose cell is filled\<close>
  "single_store =
     \<lparr>grids = [\<lparr>width = 1, height = 1, data = 0, generation = 0\<rparr>],
      outers = [[0]], rows = [[FILLED]]\<rparr>"

section \<open>Verification\<close>

subsection \<open>Results and rounding\<close>

lemma bind_r_Inr [simp]: "bind_r (Inr v) f = f v"
  by (simp add: bind_r_def)

lemma bind_r_Inl [simp]: "bind_r (Inl e) f = Inl e"
  by (simp add: bind_r_def)

lemma bind_r_eq_Inr: "bind_r m f = Inr y \<longleftrightarrow> (\<exists>v. m = Inr v \<and> f v = Inr y)"
  by (cases m) simp_all

lemma round_out_small: "\<bar>c\<bar> < 1 / 10 ^ 10 \<Longrightarrow> round_out c = 0"
  by (simp add: round_out_def)

lemma round_out_pos: "1 / 10 ^ 10 \<le> c \<Longrightarrow> c \<le> 1 \<Longrightarrow> round_out c = 1"
proof -
  assume a: "1 / 10 ^ 10 \<le> c" and b: "c \<le> 1"
  have c0: "0 < c" using a by (smt (verit) divide_pos_pos zero_less_power zero_less_numeral zero_less_one)
  have "\<lceil>c\<rceil> = 1" using c0 b by (simp add: ceiling_eq_iff)
  then show ?thesis using a c0 by (simp add: round_out_def py_int_def Let_def)
qed

lemma round_out_neg: "c \<le> - (1 / 10 ^ 10) \<Longrightarrow> - 1 \<le> c \<Longrightarrow> round_out c = - 1"
proof -
  assume a: "c \<le> - (1 / 10 ^ 10)" and b: "- 1 \<le> c"
  have c0: "c < 0" using a by (smt (verit) divide_pos_pos zero_less_power zero_less_numeral zero_less_one)
  have c1: "\<lceil>- c\<rceil> = 1" using c0 b by (simp add: ceiling_eq_iff)
  have c2: "c / \<bar>c\<bar> = - 1" using c0 by simp
  have c3: "\<not> \<bar>c\<bar> < 1 / 10 ^ 10" using a c0 by linarith
  have c4: "\<bar>c\<bar> = - c" using c0 by simp
  have c5: "py_int (- 1) = - 1" by (simp add: py_int_def ceiling_eq_iff)
  show ?thesis unfolding round_out_def Let_def using c0 c1 c3 c5 by (simp only: c2 c4 if_False) simp
qed

lemma sqrt2_half_bounds: "1 / 10 ^ 10 \<le> sqrt 2 / 2" "sqrt 2 / 2 \<le> 1"
proof -
  have a: "1 \<le> sqrt 2" by simp
  have "(1::real) / 10 ^ 10 \<le> 1 / 2" by simp
  also have "\<dots> \<le> sqrt 2 / 2" using a by simp
  finally show "1 / 10 ^ 10 \<le> sqrt 2 / 2" .
  have "sqrt 2 \<le> 2" by (rule real_le_lsqrt) simp_all
  then show "sqrt 2 / 2 \<le> 1" by simp
qed

lemma round_out_sqrt2_half: "round_out (sqrt 2 / 2) = 1" "round_out (- (sqrt 2 / 2)) = - 1"
proof -
  show "round_out (sqrt 2 / 2) = 1"
    by (rule round_out_pos) (rule sqrt2_half_bounds)+
  show "round_out (- (sqrt 2 / 2)) = - 1"
    using sqrt2_half_bounds by (intro round_out_neg) linarith+
qed

lemma round_out_unit: "round_out 1 = 1" "round_out (- 1) = - 1" "round_out 0 = 0"
  by (simp_all add: round_out_pos round_out_neg round_out_small)

lemma cos_135: "cos (3 * pi / 4) = - (sqrt 2 / 2)"
proof -
  have "cos (3 * pi / 4) = cos (pi - pi / 4)" by (simp add: field_simps)
  also have "\<dots> = - cos (pi / 4)" by (rule cos_pi_minus)
  finally show ?thesis by (simp add: cos_45)
qed

lemma sin_135: "sin (3 * pi / 4) = sqrt 2 / 2"
proof -
  have "sin (3 * pi / 4) = sin (pi - pi / 4)" by (simp add: field_simps)
  also have "\<dots> = sin (pi / 4)" by (rule sin_pi_minus)
  finally show ?thesis by (simp add: sin_45)
qed

lemma cos_225: "cos (5 * pi / 4) = - (sqrt 2 / 2)"
proof -
  have "cos (5 * pi / 4) = cos (pi / 4 + pi)" by (simp add: field_simps)
  also have "\<dots> = - cos (pi / 4)" by (rule cos_periodic_pi)
  finally show ?thesis by (simp add: cos_45)
qed

lemma sin_225: "sin (5 * pi / 4) = - (sqrt 2 / 2)"
proof -
  have "sin (5 * pi / 4) = sin (pi / 4 + pi)" by (simp add: field_simps)
  also have "\<dots> = - sin (pi / 4)" by (rule sin_periodic_pi)
  finally show ?thesis by (simp add: sin_45)
qed

lemma cos_270: "cos (3 * pi / 2) = 0"
proof -
  have "cos (3 * pi / 2) = cos (pi / 2 + pi)" by (simp add: field_simps)
  also have "\<dots> = - cos (pi / 2)" by (rule cos_periodic_pi)
  finally show ?thesis by simp
qed

lemma sin_270: "sin (3 * pi / 2) = - 1"
proof -
  have "sin (3 * pi / 2) = sin (pi / 2 + pi)" by (simp add: field_simps)
  also have "\<dots> = - sin (pi / 2)" by (rule sin_periodic_pi)
  finally show ?thesis by simp
qed

lemma cos_315: "cos (7 * pi / 4) = sqrt 2 / 2"
proof -
  have "cos (7 * pi / 4) = cos (- (pi / 4) + 2 * pi)" by (simp add: field_simps)
  also have "\<dots> = cos (- (pi / 4))" by (rule cos_periodic)
  finally show ?thesis by (simp add: cos_45)
qed

lemma sin_315: "sin (7 * pi / 4) = - (sqrt 2 / 2)"
proof -
  have "sin (7 * pi / 4) = sin (- (pi / 4) + 2 * pi)" by (simp add: field_simps)
  also have "\<dots> = sin (- (pi / 4))" by (rule sin_periodic)
  finally show ?thesis by (simp add: sin_45)
qed

lemma neighbour_offset_values:
  "neighbour_offset 0 = (1, 0)" "neighbour_offset 1 = (1, 1)" "neighbour_offset 2 = (0, 1)" "neighbour_offset 3 = (- 1, 1)"
  "neighbour_offset 4 = (- 1, 0)" "neighbour_offset 5 = (- 1, - 1)" "neighbour_offset 6 = (0, - 1)" "neighbour_offset 7 = (1, - 1)"
  unfolding neighbour_offset_def
  by (simp_all add: cos_45 sin_45 cos_135 sin_135 cos_225 sin_225 cos_270 sin_270 cos_315 sin_315
      round_out_sqrt2_half round_out_unit)

lemma py_range_8: "py_range 8 = [0, 1, 2, 3, 4, 5, 6, 7]"
  unfolding py_range_def by (simp add: upt_rec)

subsection \<open>Reading and writing a well-formed grid\<close>

lemma deref_in: "a < length xs \<Longrightarrow> deref xs a = Inr (xs ! a)"
  by (simp add: deref_def)

lemma py_mod_pos: "0 < b \<Longrightarrow> py_mod a b = Inr (a mod b)"
  by (simp add: py_mod_def)

lemma py_index_in: "0 \<le> i \<Longrightarrow> i < int (length xs) \<Longrightarrow> py_index xs i = Inr (xs ! nat i)"
  by (simp add: py_index_def)

lemma py_store_in: "0 \<le> i \<Longrightarrow> i < int (length xs) \<Longrightarrow> py_store xs i v = Inr (xs[nat i := v])"
  by (simp add: py_store_def)

lemma mod_in_range: "0 < (b::int) \<Longrightarrow> 0 \<le> a mod b \<and> a mod b < b \<and> nat (a mod b) < nat b"
  by simp

lemma valid_gridD:
  assumes "valid_grid h a"
  shows "a < length (grids h)" "0 < width (grids h ! a)" "0 < height (grids h ! a)"
    "data (grids h ! a) < length (outers h)"
    "int (length (grid_rows h a)) = height (grids h ! a)"
    "length (grid_rows h a) = nat (height (grids h ! a))"
    "distinct (grid_rows h a)"
    "\<And>k. k < length (grid_rows h a) \<Longrightarrow> grid_rows h a ! k < length (rows h)"
    "\<And>k. k < length (grid_rows h a) \<Longrightarrow> int (length (rows h ! (grid_rows h a ! k))) = width (grids h ! a)"
    "\<And>k. k < length (grid_rows h a) \<Longrightarrow> length (rows h ! (grid_rows h a ! k)) = nat (width (grids h ! a))"
  using assms by (auto simp: valid_grid_def list_all_length)

lemma row_index:
  assumes "valid_grid h a"
  shows "nat (y mod height (grids h ! a)) < length (grid_rows h a)"
  using valid_gridD(3,6) [OF assms] by simp

lemma getitem_valid:
  assumes v: "valid_grid h a"
  shows "getitem h a (x, y) =
    Inr (cell_at (cells h a) (width (grids h ! a)) (height (grids h ! a)) x y)"
proof -
  let ?g = "grids h ! a"
  let ?k = "nat (y mod height ?g)"
  have k: "?k < length (grid_rows h a)" by (rule row_index [OF v])
  have 1: "deref (grids h) a = Inr ?g" using valid_gridD(1) [OF v] by (rule deref_in)
  have 2: "py_mod x (width ?g) = Inr (x mod width ?g)" using valid_gridD(2) [OF v] by (rule py_mod_pos)
  have 3: "py_mod y (height ?g) = Inr (y mod height ?g)" using valid_gridD(3) [OF v] by (rule py_mod_pos)
  have 4: "deref (outers h) (data ?g) = Inr (grid_rows h a)"
    unfolding grid_rows_def using valid_gridD(4) [OF v] by (rule deref_in)
  have 5: "py_index (grid_rows h a) (y mod height ?g) = Inr (grid_rows h a ! ?k)"
    using valid_gridD(3,5) [OF v] by (intro py_index_in) simp_all
  have 6: "deref (rows h) (grid_rows h a ! ?k) = Inr (rows h ! (grid_rows h a ! ?k))"
    using valid_gridD(8) [OF v k] by (rule deref_in)
  have 7: "py_index (rows h ! (grid_rows h a ! ?k)) (x mod width ?g) =
      Inr (rows h ! (grid_rows h a ! ?k) ! nat (x mod width ?g))"
    using valid_gridD(2) [OF v] valid_gridD(9) [OF v k] by (intro py_index_in) simp_all
  have 8: "cells h a ! ?k = rows h ! (grid_rows h a ! ?k)"
    using k by (simp add: cells_def)
  show ?thesis
    by (simp add: getitem_def 1 2 3 4 5 6 7 8 cell_at_def)
qed

lemma setitem_valid:
  assumes v: "valid_grid h a"
  shows "setitem h a (x, y) c =
    Inr (h\<lparr>rows := (rows h)[grid_rows h a ! nat (y mod height (grids h ! a)) :=
       (rows h ! (grid_rows h a ! nat (y mod height (grids h ! a))))
         [nat (x mod width (grids h ! a)) := c]]\<rparr>)"
proof -
  let ?g = "grids h ! a"
  let ?k = "nat (y mod height ?g)"
  have k: "?k < length (grid_rows h a)" by (rule row_index [OF v])
  have 1: "deref (grids h) a = Inr ?g" using valid_gridD(1) [OF v] by (rule deref_in)
  have 2: "py_mod x (width ?g) = Inr (x mod width ?g)" using valid_gridD(2) [OF v] by (rule py_mod_pos)
  have 3: "py_mod y (height ?g) = Inr (y mod height ?g)" using valid_gridD(3) [OF v] by (rule py_mod_pos)
  have 4: "deref (outers h) (data ?g) = Inr (grid_rows h a)"
    unfolding grid_rows_def using valid_gridD(4) [OF v] by (rule deref_in)
  have 5: "py_index (grid_rows h a) (y mod height ?g) = Inr (grid_rows h a ! ?k)"
    using valid_gridD(3,5) [OF v] by (intro py_index_in) simp_all
  have 6: "deref (rows h) (grid_rows h a ! ?k) = Inr (rows h ! (grid_rows h a ! ?k))"
    using valid_gridD(8) [OF v k] by (rule deref_in)
  have 7: "py_store (rows h ! (grid_rows h a ! ?k)) (x mod width ?g) c =
      Inr ((rows h ! (grid_rows h a ! ?k))[nat (x mod width ?g) := c])"
    using valid_gridD(2) [OF v] valid_gridD(9) [OF v k] by (intro py_store_in) simp_all
  show ?thesis
    by (simp add: setitem_def 1 2 3 4 5 6 7)
qed

lemma preserved_refl: "preserved xs xs"
  by (simp add: preserved_def)

lemma preserved_append: "preserved xs (xs @ ys)"
  by (simp add: preserved_def)

lemma preserved_nth: "preserved xs xs' \<Longrightarrow> k < length xs \<Longrightarrow> xs' ! k = xs ! k"
  unfolding preserved_def by (metis nth_take)

lemma preserved_length: "preserved xs xs' \<Longrightarrow> length xs \<le> length xs'"
  unfolding preserved_def by (drule arg_cong [where f = length]) simp

lemma preserved_trans: "preserved xs ys \<Longrightarrow> preserved ys zs \<Longrightarrow> preserved xs zs"
  unfolding preserved_def
  by (metis append_eq_conv_conj append_assoc append_take_drop_id)

lemma preserved_update: "length xs \<le> k \<Longrightarrow> preserved xs xs' \<Longrightarrow> preserved xs (xs'[k := v])"
  unfolding preserved_def by simp

lemma Grid_init_result:
  "Grid_init h w ht = Inr (length (grids h),
     \<lparr>grids = grids h @ [\<lparr>width = w, height = ht, data = length (outers h), generation = 0\<rparr>],
      outers = outers h @ [[length (rows h)..<length (rows h) + nat ht]],
      rows = rows h @ replicate (nat ht) (replicate (nat w) EMPTY)\<rparr>)"
proof -
  have "concat (replicate n [EMPTY]) = replicate n EMPTY" for n
    by (induction n) simp_all
  then show ?thesis
    by (simp add: Grid_init_def py_range_def map_replicate_const)
qed

lemma cells_Grid_init:
  assumes "h' = \<lparr>grids = grids h @ [\<lparr>width = w, height = ht, data = length (outers h), generation = 0\<rparr>],
      outers = outers h @ [[length (rows h)..<length (rows h) + nat ht]],
      rows = rows h @ replicate (nat ht) (replicate (nat w) EMPTY)\<rparr>"
  shows "cells h' (length (grids h)) = replicate (nat ht) (replicate (nat w) EMPTY)"
  by (rule nth_equalityI) (simp_all add: assms cells_def grid_rows_def nth_append)

lemma valid_Grid_init:
  assumes "h' = \<lparr>grids = grids h @ [\<lparr>width = w, height = ht, data = length (outers h), generation = 0\<rparr>],
      outers = outers h @ [[length (rows h)..<length (rows h) + nat ht]],
      rows = rows h @ replicate (nat ht) (replicate (nat w) EMPTY)\<rparr>"
    and "0 < w" "0 < ht"
  shows "valid_grid h' (length (grids h))"
  using assms(2,3)
  by (auto simp add: assms(1) valid_grid_def grid_rows_def list_all_length nth_append)

lemma all_cellsI:
  assumes "\<And>x y. 0 \<le> x \<Longrightarrow> x < width (grids h ! a) \<Longrightarrow> 0 \<le> y \<Longrightarrow> y < height (grids h ! a)
    \<Longrightarrow> p x y (getitem h a (x, y))"
  shows "all_cells h a p"
  unfolding all_cells_def list_all_iff py_range_def using assms by auto

lemma all_cellsD:
  assumes "all_cells h a p" "0 \<le> x" "x < width (grids h ! a)" "0 \<le> y" "y < height (grids h ! a)"
  shows "p x y (getitem h a (x, y))"
proof -
  have mem: "0 \<le> k \<Longrightarrow> k < n \<Longrightarrow> k \<in> set (py_range n)" for k n
    unfolding py_range_def by (auto simp: image_iff intro!: bexI [of _ "nat k"])
  have "x \<in> set (py_range (width (grids h ! a)))" "y \<in> set (py_range (height (grids h ! a)))"
    using assms(2-5) by (simp_all add: mem)
  then show ?thesis using assms(1) unfolding all_cells_def list_all_iff by blast
qed

subsection \<open>Construction\<close>

text \<open>
  C1, as the program has it: \<open>Grid(width, height)\<close> never fails, whatever the two integers
  are. It returns a new object with the given width and height, generation 0 and
  \<open>max(height, 0)\<close> rows of \<open>max(width, 0)\<close> cells, all \<open>EMPTY\<close>, and leaves every object of
  the store as it was. With a positive width and height the grid is well formed and every
  cell reads \<open>EMPTY\<close>.
\<close>

theorem Grid_init_never_fails:
  "\<exists>h'. Grid_init h w ht = Inr (length (grids h), h') \<and>
     objects_preserved h h' \<and>
     width (grids h' ! length (grids h)) = w \<and>
     height (grids h' ! length (grids h)) = ht \<and>
     generation (grids h' ! length (grids h)) = 0 \<and>
     cells h' (length (grids h)) = replicate (nat ht) (replicate (nat w) EMPTY) \<and>
     (0 < w \<and> 0 < ht \<longrightarrow>
        valid_grid h' (length (grids h)) \<and>
        all_cells h' (length (grids h)) (\<lambda>x y c. c = Inr EMPTY))"
proof -
  define h' where "h' = \<lparr>grids = grids h @ [\<lparr>width = w, height = ht, data = length (outers h), generation = 0\<rparr>],
      outers = outers h @ [[length (rows h)..<length (rows h) + nat ht]],
      rows = rows h @ replicate (nat ht) (replicate (nat w) EMPTY)\<rparr>"
  let ?a = "length (grids h)"
  have r: "Grid_init h w ht = Inr (?a, h')"
    unfolding h'_def by (rule Grid_init_result)
  have p: "objects_preserved h h'"
    by (simp add: objects_preserved_def h'_def preserved_append)
  have f: "width (grids h' ! ?a) = w" "height (grids h' ! ?a) = ht" "generation (grids h' ! ?a) = 0"
    by (simp_all add: h'_def)
  have c: "cells h' ?a = replicate (nat ht) (replicate (nat w) EMPTY)"
    by (rule cells_Grid_init [OF h'_def])
  have e: "valid_grid h' ?a \<and> all_cells h' ?a (\<lambda>x y c. c = Inr EMPTY)" if pos: "0 < w \<and> 0 < ht"
  proof
    show v: "valid_grid h' ?a" using pos by (intro valid_Grid_init [OF h'_def]) simp_all
    show "all_cells h' ?a (\<lambda>x y c. c = Inr EMPTY)"
    proof (rule all_cellsI)
      fix x y assume "0 \<le> x" "x < width (grids h' ! ?a)" "0 \<le> y" "y < height (grids h' ! ?a)"
      then show "getitem h' ?a (x, y) = Inr EMPTY"
        by (simp add: getitem_valid [OF v] c f cell_at_def)
    qed
  qed
  from r p f c e show ?thesis by blast
qed

theorem Grid_init_never_fails_witness:
  "\<exists>h'. Grid_init empty_heap 2 1 = Inr (0, h') \<and>
     cells h' 0 = [[EMPTY, EMPTY]] \<and> valid_grid h' 0 \<and>
     all_cells h' 0 (\<lambda>x y c. c = Inr EMPTY)"
  using Grid_init_never_fails [of empty_heap 2 1]
  by (simp add: empty_heap_def numeral_2_eq_2) blast

text \<open>
  C1 as stated fails: the construction of a grid of width 0 raises nothing and returns a
  grid of three empty rows.
\<close>

theorem Grid_init_zero_width_succeeds:
  "Grid_init empty_heap 0 3 =
     Inr (0, \<lparr>grids = [\<lparr>width = 0, height = 3, data = 0, generation = 0\<rparr>],
              outers = [[0, 1, 2]], rows = [[], [], []]\<rparr>)"
  by (simp add: Grid_init_result empty_heap_def upt_rec numeral_3_eq_3)

text \<open>
  A grid with a dimension that is not positive fails later, at the first access: the
  modulo by 0 raises, and with a negative dimension the index lies outside the empty
  storage.
\<close>

lemma degenerate_grids:
  "bind_r (Grid_init empty_heap 0 3) (\<lambda>(g, h). getitem h g (0, 0)) = Inl ZeroDivisionError"
  "bind_r (Grid_init empty_heap 3 0) (\<lambda>(g, h). getitem h g (0, 0)) = Inl ZeroDivisionError"
  "bind_r (Grid_init empty_heap (- 2) 3) (\<lambda>(g, h). getitem h g (1, 0)) = Inl IndexError"
  "bind_r (Grid_init empty_heap 3 (- 2)) (\<lambda>(g, h). getitem h g (0, 1)) = Inl IndexError"
  "bind_r (Grid_init empty_heap 0 3) (\<lambda>(g, h). add_pattern h g PATTERN_BLOCK 0 0) =
     Inl ZeroDivisionError"
  by (simp_all add: Grid_init_result empty_heap_def getitem_def add_pattern_def setitem_def
      deref_def py_mod_def py_index_def PATTERN_BLOCK_def upt_rec numeral_eq_Suc)

subsection \<open>deepcopy, the frame of an operation and matrices of cells\<close>

lemma deepcopy_rows_distinct:
  assumes "distinct rs" "\<forall>r\<in>set rs. r < length (rows h) \<and> map_of memo r = None"
  shows "deepcopy_rows h memo rs =
    Inr ([length (rows h)..<length (rows h) + length rs],
         h\<lparr>rows := rows h @ map (\<lambda>r. rows h ! r) rs\<rparr>)"
  using assms
proof (induction rs arbitrary: h memo)
  case Nil
  then show ?case by simp
next
  case (Cons r rs)
  let ?h1 = "h\<lparr>rows := rows h @ [rows h ! r]\<rparr>"
  let ?memo1 = "(r, length (rows h)) # memo"
  have r: "r < length (rows h)" "map_of memo r = None" "r \<notin> set rs" "distinct rs"
    using Cons.prems by auto
  have pre: "\<forall>r'\<in>set rs. r' < length (rows ?h1) \<and> map_of ?memo1 r' = None"
    using Cons.prems by auto
  have same: "map (\<lambda>r'. rows ?h1 ! r') rs = map (\<lambda>r'. rows h ! r') rs"
    using Cons.prems by (auto simp: nth_append)
  have ih: "deepcopy_rows ?h1 ?memo1 rs =
    Inr ([Suc (length (rows h))..<Suc (length (rows h)) + length rs],
         h\<lparr>rows := rows h @ rows h ! r # map (\<lambda>r'. rows h ! r') rs\<rparr>)"
  proof -
    have "deepcopy_rows ?h1 ?memo1 rs =
      Inr ([length (rows ?h1)..<length (rows ?h1) + length rs],
           ?h1\<lparr>rows := rows ?h1 @ map (\<lambda>r. rows ?h1 ! r) rs\<rparr>)"
      by (rule Cons.IH [OF r(4) pre])
    also have "\<dots> = Inr ([Suc (length (rows h))..<Suc (length (rows h)) + length rs],
         h\<lparr>rows := rows h @ rows h ! r # map (\<lambda>r'. rows h ! r') rs\<rparr>)"
      unfolding same by (simp del: upt_Suc)
    finally show ?thesis .
  qed
  have upt: "length (rows h) # [Suc (length (rows h))..<Suc (length (rows h)) + length rs] =
      [length (rows h)..<length (rows h) + length (r # rs)]"
  proof -
    have "[length (rows h)..<length (rows h) + length (r # rs)] =
      length (rows h) # [Suc (length (rows h))..<length (rows h) + length (r # rs)]"
      by (rule upt_conv_Cons) simp
    moreover have "length (rows h) + length (r # rs) = Suc (length (rows h)) + length rs"
      by simp
    ultimately show ?thesis by (simp only:)
  qed
  have "deepcopy_rows h memo (r # rs) =
    Inr (length (rows h) # [Suc (length (rows h))..<Suc (length (rows h)) + length rs],
         h\<lparr>rows := rows h @ rows h ! r # map (\<lambda>r'. rows h ! r') rs\<rparr>)"
    by (simp only: deepcopy_rows.simps r(2) option.case deref_in [OF r(1)] bind_r_Inr ih
        case_prod_conv)
  then show ?case
    by (simp only: upt list.map)
qed

lemma deepcopy_valid:
  assumes v: "valid_grid h a"
  shows "deepcopy h a =
    Inr (length (grids h),
         \<lparr>grids = grids h @ [(grids h ! a)\<lparr>data := length (outers h)\<rparr>],
          outers = outers h @ [[length (rows h)..<length (rows h) + length (cells h a)]],
          rows = rows h @ cells h a\<rparr>)"
proof -
  have 1: "deref (grids h) a = Inr (grids h ! a)"
    using valid_gridD(1) [OF v] by (rule deref_in)
  have 2: "deref (outers h) (data (grids h ! a)) = Inr (grid_rows h a)"
    unfolding grid_rows_def using valid_gridD(4) [OF v] by (rule deref_in)
  have pre: "\<forall>r\<in>set (grid_rows h a). r < length (rows h) \<and> map_of [] r = None"
    using valid_gridD(8) [OF v] by (auto simp: in_set_conv_nth)
  have 3: "deepcopy_rows h [] (grid_rows h a) =
    Inr ([length (rows h)..<length (rows h) + length (grid_rows h a)],
         h\<lparr>rows := rows h @ cells h a\<rparr>)"
    unfolding cells_def by (rule deepcopy_rows_distinct [OF valid_gridD(7) [OF v] pre])
  show ?thesis
    by (simp add: deepcopy_def 1 2 3) (simp add: cells_def)
qed


lemma preserved_grid:
  assumes "objects_preserved h h'" "valid_grid h a"
  shows "grids h' ! a = grids h ! a"
  using assms valid_gridD(1) [OF assms(2)]
  by (simp add: objects_preserved_def preserved_nth)

lemma preserved_grid_rows:
  assumes "objects_preserved h h'" "valid_grid h a"
  shows "grid_rows h' a = grid_rows h a"
  using assms(1) valid_gridD(4) [OF assms(2)]
  by (simp add: grid_rows_def preserved_grid [OF assms] objects_preserved_def preserved_nth)

lemma preserved_cells:
  assumes "objects_preserved h h'" "valid_grid h a"
  shows "cells h' a = cells h a"
proof -
  have "rows h' ! r = rows h ! r" if "r \<in> set (grid_rows h a)" for r
    using that assms(1) valid_gridD(8) [OF assms(2)]
    by (auto simp: in_set_conv_nth objects_preserved_def preserved_nth)
  then show ?thesis
    by (simp add: cells_def preserved_grid_rows [OF assms])
qed

lemma preserved_valid:
  assumes "objects_preserved h h'" "valid_grid h a"
  shows "valid_grid h' a"
proof -
  have len: "length (grids h) \<le> length (grids h')" "length (outers h) \<le> length (outers h')"
    "length (rows h) \<le> length (rows h')"
    using assms(1) by (simp_all add: objects_preserved_def preserved_length)
  have r: "grid_rows h a ! k < length (rows h') \<and>
      rows h' ! (grid_rows h a ! k) = rows h ! (grid_rows h a ! k)"
    if "k < length (grid_rows h a)" for k
    using valid_gridD(8) [OF assms(2) that] assms(1) len
    by (simp add: objects_preserved_def preserved_nth)
  show ?thesis
    unfolding valid_grid_def preserved_grid [OF assms] preserved_grid_rows [OF assms]
    using valid_gridD(1-5,7,9) [OF assms(2)] len r
    by (simp add: list_all_length)
qed

lemma preserved_getitem:
  assumes "objects_preserved h h'" "valid_grid h a"
  shows "getitem h' a t = getitem h a t"
  by (cases t)
    (simp add: getitem_valid [OF assms(2)] getitem_valid [OF preserved_valid [OF assms]]
      preserved_cells [OF assms] preserved_grid [OF assms])

lemma objects_preserved_refl: "objects_preserved h h"
  by (simp add: objects_preserved_def preserved_refl)

lemma objects_preserved_trans:
  "objects_preserved h h' \<Longrightarrow> objects_preserved h' h'' \<Longrightarrow> objects_preserved h h''"
  unfolding objects_preserved_def by (blast intro: preserved_trans)

lemma step_heap_preserved: "objects_preserved h (step_heap h a M)"
  by (simp add: objects_preserved_def step_heap_def preserved_append)

lemma step_heap_new:
  assumes v: "valid_grid h a"
    and M: "length M = nat (height (grids h ! a))"
      "\<And>k. k < length M \<Longrightarrow> length (M ! k) = nat (width (grids h ! a))"
  shows "valid_grid (step_heap h a M) (length (grids h))"
    and "cells (step_heap h a M) (length (grids h)) = M"
    and "grid_rows (step_heap h a M) (length (grids h)) =
       [length (rows h)..<length (rows h) + length M]"
    and "width (grids (step_heap h a M) ! length (grids h)) = width (grids h ! a)"
    and "height (grids (step_heap h a M) ! length (grids h)) = height (grids h ! a)"
    and "generation (grids (step_heap h a M) ! length (grids h)) = generation (grids h ! a) + 1"
proof -
  show gr: "grid_rows (step_heap h a M) (length (grids h)) =
       [length (rows h)..<length (rows h) + length M]"
    by (simp add: grid_rows_def step_heap_def)
  show "cells (step_heap h a M) (length (grids h)) = M"
    unfolding cells_def gr by (rule nth_equalityI) (simp_all add: step_heap_def)
  show "width (grids (step_heap h a M) ! length (grids h)) = width (grids h ! a)"
    "height (grids (step_heap h a M) ! length (grids h)) = height (grids h ! a)"
    "generation (grids (step_heap h a M) ! length (grids h)) = generation (grids h ! a) + 1"
    by (simp_all add: step_heap_def)
  show "valid_grid (step_heap h a M) (length (grids h))"
    unfolding valid_grid_def gr
    using valid_gridD(2,3) [OF v] M
    by (simp add: step_heap_def list_all_length)
qed

lemma step_heap_setitem:
  assumes v: "valid_grid h a"
    and M: "length M = nat (height (grids h ! a))"
      "\<And>k. k < length M \<Longrightarrow> length (M ! k) = nat (width (grids h ! a))"
    and ij: "0 \<le> i" "i < width (grids h ! a)" "0 \<le> j" "j < height (grids h ! a)"
  shows "setitem (step_heap h a M) (length (grids h)) (i, j) c =
    Inr (step_heap h a (M[nat j := (M ! nat j)[nat i := c]]))"
proof -
  let ?K = "step_heap h a M"
  let ?n = "length (grids h)"
  note new = step_heap_new [OF v M]
  have j: "nat j < length M" using ij M(1) by simp
  have row: "grid_rows ?K ?n ! nat j = length (rows h) + nat j"
    using j by (simp add: new(3))
  have "setitem ?K ?n (i, j) c =
    Inr (?K\<lparr>rows := (rows ?K)[length (rows h) + nat j :=
       (rows ?K ! (length (rows h) + nat j))[nat i := c]]\<rparr>)"
    using ij by (simp add: setitem_valid [OF new(1)] new(4,5) row)
  also have "(rows ?K)[length (rows h) + nat j :=
       (rows ?K ! (length (rows h) + nat j))[nat i := c]] =
     rows h @ M[nat j := (M ! nat j)[nat i := c]]"
    by (simp add: step_heap_def list_update_append)
  finally show ?thesis
    by (simp add: step_heap_def)
qed

lemma for_each_sets:
  assumes "\<And>x P. x \<in> set xs \<Longrightarrow> body x (K P) = Inr (K (P \<union> F x))"
  shows "for_each xs body (K P) = Inr (K (P \<union> \<Union>(F ` set xs)))"
  using assms
proof (induction xs arbitrary: P)
  case Nil
  then show ?case by simp
next
  case (Cons x xs)
  have "for_each (x # xs) body (K P) = for_each xs body (K (P \<union> F x))"
    by (simp add: Cons.prems)
  also have "\<dots> = Inr (K ((P \<union> F x) \<union> \<Union>(F ` set xs)))"
    by (rule Cons.IH) (simp add: Cons.prems)
  also have "(P \<union> F x) \<union> \<Union>(F ` set xs) = P \<union> \<Union>(F ` set (x # xs))"
    by auto
  finally show ?case .
qed

lemma partial_cells_shape:
  "length (partial_cells cs W H P) = nat H"
  "k < nat H \<Longrightarrow> length (partial_cells cs W H P ! k) = nat W"
  by (simp_all add: partial_cells_def)

lemma partial_cells_nth:
  "k < nat H \<Longrightarrow> l < nat W \<Longrightarrow>
   partial_cells cs W H P ! k ! l =
     (if (int l, int k) \<in> P then new_cell cs W H (int l) (int k) else cs ! k ! l)"
  by (simp add: partial_cells_def)

lemma matrix_eqI:
  assumes "length A = n" "length B = n"
    and "\<And>k. k < n \<Longrightarrow> length (A ! k) = m" "\<And>k. k < n \<Longrightarrow> length (B ! k) = m"
    and "\<And>k l. k < n \<Longrightarrow> l < m \<Longrightarrow> A ! k ! l = B ! k ! l"
  shows "A = B"
proof (rule nth_equalityI)
  show "length A = length B" using assms(1,2) by simp
  fix k assume "k < length A"
  then have k: "k < n" using assms(1) by simp
  show "A ! k = B ! k"
    by (rule nth_equalityI) (simp_all add: assms(3-5) k)
qed

lemma partial_cells_empty:
  assumes "length cs = nat H" "\<And>k. k < nat H \<Longrightarrow> length (cs ! k) = nat W"
  shows "partial_cells cs W H {} = cs"
  by (rule matrix_eqI [where n = "nat H" and m = "nat W"])
    (simp_all add: partial_cells_shape partial_cells_nth assms)

lemma partial_cells_full:
  assumes "\<And>i j. 0 \<le> i \<Longrightarrow> i < W \<Longrightarrow> 0 \<le> j \<Longrightarrow> j < H \<Longrightarrow> (i, j) \<in> P"
  shows "partial_cells cs W H P = next_cells cs W H"
  by (rule matrix_eqI [where n = "nat H" and m = "nat W"])
    (simp_all add: partial_cells_shape partial_cells_nth assms next_cells_def)

lemma partial_cells_insert:
  assumes "0 \<le> i" "i < W" "0 \<le> j" "j < H"
  shows "(partial_cells cs W H P)[nat j := (partial_cells cs W H P ! nat j)
            [nat i := new_cell cs W H i j]] =
         partial_cells cs W H (insert (i, j) P)"
proof (rule matrix_eqI [where n = "nat H" and m = "nat W"])
  fix k l assume kl: "k < nat H" "l < nat W"
  have eq: "(int l = i \<and> int k = j) = (l = nat i \<and> k = nat j)"
    using assms by auto
  show "(partial_cells cs W H P)[nat j := (partial_cells cs W H P ! nat j)
            [nat i := new_cell cs W H i j]] ! k ! l =
         partial_cells cs W H (insert (i, j) P) ! k ! l"
    using kl assms
    by (auto simp add: partial_cells_shape partial_cells_nth nth_list_update eq)
qed (use assms in \<open>simp_all add: partial_cells_shape nth_list_update\<close>)

lemma partial_cells_insert_same:
  assumes "0 \<le> i" "0 \<le> j" "new_cell cs W H i j = cs ! nat j ! nat i"
  shows "partial_cells cs W H (insert (i, j) P) = partial_cells cs W H P"
proof (rule matrix_eqI [where n = "nat H" and m = "nat W"])
  fix k l assume kl: "k < nat H" "l < nat W"
  show "partial_cells cs W H (insert (i, j) P) ! k ! l = partial_cells cs W H P ! k ! l"
    using kl assms by (auto simp add: partial_cells_nth)
qed (simp_all add: partial_cells_shape)

subsection \<open>One generation\<close>

lemma neighbour_offset_table: "map neighbour_offset (py_range 8) = spec_moore_offsets"
  by (simp add: spec_moore_offsets_def py_range_8 neighbour_offset_values)

lemma set_py_range: "set (py_range n) = {0..<n}"
proof -
  have "k \<in> int ` {0..<nat n}" if "0 \<le> k" "k < n" for k
    using that by (intro image_eqI [where x = "nat k"]) simp_all
  then show ?thesis by (auto simp: py_range_def)
qed

lemma count_loop_Cons:
  "count_loop h g i j (n # ns) k =
     bind_r (getitem h g (i + fst (neighbour_offset n), j + snd (neighbour_offset n)))
       (\<lambda>c. count_loop h g i j ns (if c = FILLED then k + 1 else k))"
  by (simp add: neighbour_offset_def Let_def)

lemma count_loop_valid:
  assumes v: "valid_grid h a"
  shows "count_loop h a i j ns k =
    Inr (k + int (length (filter
      (\<lambda>(dx, dy). cell_at (cells h a) (width (grids h ! a)) (height (grids h ! a))
          (i + dx) (j + dy) = FILLED)
      (map neighbour_offset ns))))"
proof (induction ns arbitrary: k)
  case Nil
  show ?case by simp
next
  case (Cons n ns)
  show ?case
    unfolding count_loop_Cons getitem_valid [OF v] bind_r_Inr Cons.IH
    by (simp add: split_def)
qed

lemma count_loop_range8:
  assumes v: "valid_grid h a"
  shows "count_loop h a i j (py_range 8) 0 =
    Inr (count_at (cells h a) (width (grids h ! a)) (height (grids h ! a)) i j)"
  unfolding count_loop_valid [OF v] neighbour_offset_table count_at_def by simp

lemma step_cell_partial:
  assumes v: "valid_grid h a"
    and cs: "cs = cells h a" and W: "W = width (grids h ! a)" and H: "H = height (grids h ! a)"
    and ij: "0 \<le> i" "i < W" "0 \<le> j" "j < H"
  shows "step_cell a (length (grids h)) i j (step_heap h a (partial_cells cs W H P)) =
    Inr (step_heap h a (partial_cells cs W H (insert (i, j) P)))"
proof -
  let ?M = "partial_cells cs W H P"
  let ?K = "step_heap h a ?M"
  have pres: "objects_preserved h ?K" by (rule step_heap_preserved)
  have vK: "valid_grid ?K a" by (rule preserved_valid [OF pres v])
  have cK0: "cells (step_heap h a M') a = cells h a" "grids (step_heap h a M') ! a = grids h ! a"
    for M'
    by (rule preserved_cells [OF step_heap_preserved v],
        rule preserved_grid [OF step_heap_preserved v])
  have cK: "cells ?K a = cs" "width (grids ?K ! a) = W" "height (grids ?K ! a) = H"
    by (simp_all add: cK0 cs W H)
  have cnt: "count_loop ?K a i j (py_range 8) 0 = Inr (count_at cs W H i j)"
    by (simp add: count_loop_range8 [OF vK] cK)
  have get: "getitem ?K a (i, j) = Inr (cell_at cs W H i j)"
    by (simp add: getitem_valid [OF vK] cK)
  have old: "cell_at cs W H i j = cs ! nat j ! nat i"
    using ij by (simp add: cell_at_def)
  have M: "length ?M = nat (height (grids h ! a))"
    "\<And>k. k < length ?M \<Longrightarrow> length (?M ! k) = nat (width (grids h ! a))"
    by (simp_all add: partial_cells_shape W H)
  have set: "setitem ?K (length (grids h)) (i, j) c =
      Inr (step_heap h a (?M[nat j := (?M ! nat j)[nat i := c]]))" for c
    using ij by (intro step_heap_setitem [OF v M]) (simp_all add: W H)
  note ins = partial_cells_insert [OF ij, of cs P]
  note same = partial_cells_insert_same [OF ij(1,3), of cs W H P]
  show ?thesis
  proof (cases "cell_at cs W H i j = FILLED")
    case True
    show ?thesis
    proof (cases "1 < count_at cs W H i j \<and> count_at cs W H i j < 4")
      case True
      have "new_cell cs W H i j = cs ! nat j ! nat i"
        using True \<open>cell_at cs W H i j = FILLED\<close> by (simp add: new_cell_def Let_def old)
      then show ?thesis
        using True \<open>cell_at cs W H i j = FILLED\<close> by (simp add: step_cell_def cnt get same)
    next
      case False
      have "new_cell cs W H i j = EMPTY"
        using False \<open>cell_at cs W H i j = FILLED\<close> by (auto simp add: new_cell_def Let_def)
      then show ?thesis
        using False \<open>cell_at cs W H i j = FILLED\<close> ins by (auto simp add: step_cell_def cnt get set)
    qed
  next
    case False
    show ?thesis
    proof (cases "count_at cs W H i j = 3")
      case True
      have "new_cell cs W H i j = FILLED"
        using True False by (simp add: new_cell_def Let_def)
      then show ?thesis
        using True False ins by (simp add: step_cell_def cnt get set)
    next
      case c: False
      have "new_cell cs W H i j = cs ! nat j ! nat i"
        using c False by (simp add: new_cell_def Let_def old)
      then show ?thesis
        using c False by (simp add: step_cell_def cnt get same)
    qed
  qed
qed

lemma step_valid:
  assumes v: "valid_grid h a"
  shows "step h a = Inr (length (grids h),
    step_heap h a (next_cells (cells h a) (width (grids h ! a)) (height (grids h ! a))))"
proof -
  define cs where "cs = cells h a"
  define W where "W = width (grids h ! a)"
  define H where "H = height (grids h ! a)"
  define K where "K = (\<lambda>P. step_heap h a (partial_cells cs W H P))"
  let ?next = "length (grids h)"
  have a: "a < length (grids h)" by (rule valid_gridD(1) [OF v])
  have shape: "length cs = nat H" "\<And>k. k < nat H \<Longrightarrow> length (cs ! k) = nat W"
    using valid_gridD(6,10) [OF v] by (simp_all add: cs_def cells_def H_def W_def)
  have K0: "K {} = step_heap h a cs"
    by (simp add: K_def partial_cells_empty [OF shape])
  have gK: "deref (grids (K P)) a = Inr (grids h ! a)" for P
    using a by (simp add: K_def step_heap_def deref_def nth_append)
  have cell: "step_cell a ?next i j (K P) = Inr (K (P \<union> {(i, j)}))"
    if "i \<in> set (py_range W)" "j \<in> set (py_range H)" for i j P
    using that step_cell_partial [OF v cs_def W_def H_def, of i j P]
    by (simp add: K_def set_py_range)
  have inner: "for_each (py_range H) (step_cell a ?next i) (K P) =
      Inr (K (P \<union> \<Union>((\<lambda>j. {(i, j)}) ` set (py_range H))))"
    if "i \<in> set (py_range W)" for i P
    by (rule for_each_sets) (rule cell [OF that])
  have outer: "for_each (py_range W) (\<lambda>i h'.
        bind_r (deref (grids h') a) (\<lambda>g. for_each (py_range (height g)) (step_cell a ?next i) h'))
        (K {}) =
      Inr (K ({} \<union> \<Union>((\<lambda>i. \<Union>((\<lambda>j. {(i, j)}) ` set (py_range H))) ` set (py_range W))))"
    by (rule for_each_sets) (simp add: gK inner flip: H_def)
  have full: "K ({} \<union> \<Union>((\<lambda>i. \<Union>((\<lambda>j. {(i, j)}) ` set (py_range H))) ` set (py_range W))) =
      step_heap h a (next_cells cs W H)"
    unfolding K_def by (subst partial_cells_full) (auto simp: set_py_range)
  define n0 where "n0 = (grids h ! a)\<lparr>data := length (outers h)\<rparr>"
  define h1 where "h1 = \<lparr>grids = grids h @ [n0],
          outers = outers h @ [[length (rows h)..<length (rows h) + length cs]],
          rows = rows h @ cs\<rparr>"
  have copy: "deepcopy h a = Inr (?next, h1)"
    unfolding cs_def h1_def n0_def by (rule deepcopy_valid [OF v])
  have d1: "deref (grids h1) ?next = Inr n0"
    by (simp add: h1_def deref_def)
  have h2: "h1\<lparr>grids := (grids h1)[?next := n0\<lparr>generation := generation n0 + 1\<rparr>]\<rparr> =
      step_heap h a cs"
    by (simp add: h1_def n0_def step_heap_def)
  have d2: "deref (grids (step_heap h a cs)) a = Inr (grids h ! a)"
    using gK [of "{}"] unfolding K0 .
  have main: "for_each (py_range W) (\<lambda>i h'.
        bind_r (deref (grids h') a) (\<lambda>g. for_each (py_range (height g)) (step_cell a ?next i) h'))
        (step_heap h a cs) = Inr (step_heap h a (next_cells cs W H))"
    using outer unfolding K0 full .
  have "step h a = Inr (?next, step_heap h a (next_cells cs W H))"
    unfolding step_def copy bind_r_Inr case_prod_conv d1 Let_def h2 d2
    unfolding W_def [symmetric] main bind_r_Inr by (rule refl)
  then show ?thesis
    by (simp only: cs_def W_def H_def)
qed

lemma valid_blinker_store: "valid_grid blinker_store 0"
  by (simp add: valid_grid_def grid_rows_def blinker_store_def)

lemma next_cells_shape:
  "length (next_cells cs W H) = nat H"
  "k < nat H \<Longrightarrow> length (next_cells cs W H ! k) = nat W"
  by (simp_all add: next_cells_def)

lemma next_cells_nth:
  "k < nat H \<Longrightarrow> l < nat W \<Longrightarrow> next_cells cs W H ! k ! l = new_cell cs W H (int l) (int k)"
  by (simp add: next_cells_def)

lemma filled_neighbours_valid:
  assumes "valid_grid h a"
  shows "filled_neighbours h a i j =
    count_at (cells h a) (width (grids h ! a)) (height (grids h ! a)) i j"
  by (simp add: filled_neighbours_def count_at_def getitem_valid [OF assms])

lemma step_result:
  assumes v: "valid_grid h g"
  defines "M \<equiv> next_cells (cells h g) (width (grids h ! g)) (height (grids h ! g))"
  shows "step h g = Inr (length (grids h), step_heap h g M)"
    and "valid_grid (step_heap h g M) (length (grids h))"
    and "cells (step_heap h g M) (length (grids h)) = M"
    and "grid_rows (step_heap h g M) (length (grids h)) =
       [length (rows h)..<length (rows h) + length M]"
    and "width (grids (step_heap h g M) ! length (grids h)) = width (grids h ! g)"
    and "height (grids (step_heap h g M) ! length (grids h)) = height (grids h ! g)"
    and "generation (grids (step_heap h g M) ! length (grids h)) = generation (grids h ! g) + 1"
proof -
  have M: "length M = nat (height (grids h ! g))"
    "\<And>k. k < length M \<Longrightarrow> length (M ! k) = nat (width (grids h ! g))"
    by (simp_all add: M_def next_cells_shape)
  show "step h g = Inr (length (grids h), step_heap h g M)"
    unfolding M_def by (rule step_valid [OF v])
  show "valid_grid (step_heap h g M) (length (grids h))"
    and "cells (step_heap h g M) (length (grids h)) = M"
    and "grid_rows (step_heap h g M) (length (grids h)) =
       [length (rows h)..<length (rows h) + length M]"
    and "width (grids (step_heap h g M) ! length (grids h)) = width (grids h ! g)"
    and "height (grids (step_heap h g M) ! length (grids h)) = height (grids h ! g)"
    and "generation (grids (step_heap h g M) ! length (grids h)) = generation (grids h ! g) + 1"
    using step_heap_new [OF v M] by blast+
qed

lemma setitem_fresh_preserved:
  assumes v: "valid_grid h' b" and p: "objects_preserved h h'"
    and fresh: "\<And>r. r \<in> set (grid_rows h' b) \<Longrightarrow> length (rows h) \<le> r"
  shows "\<exists>h''. setitem h' b (x, y) c = Inr h'' \<and> objects_preserved h h''"
proof -
  let ?r = "grid_rows h' b ! nat (y mod height (grids h' ! b))"
  have "?r \<in> set (grid_rows h' b)"
    using row_index [OF v] by simp
  then have "length (rows h) \<le> ?r" by (rule fresh)
  then have "objects_preserved h
     (h'\<lparr>rows := (rows h')[?r := (rows h' ! ?r)[nat (x mod width (grids h' ! b)) := c]]\<rparr>)"
    using p by (simp add: objects_preserved_def preserved_update)
  then show ?thesis
    unfolding setitem_valid [OF v] by blast
qed

subsection \<open>Wraparound\<close>

text \<open>
  C2: on a grid of positive width \<open>W\<close> and height \<open>H\<close>, \<open>get(x + W, y)\<close> and \<open>get(x, y + H)\<close>
  are \<open>get(x, y)\<close> for all integers \<open>x\<close> and \<open>y\<close>, and \<open>get(-1, 0)\<close> is \<open>get(W - 1, 0)\<close>;
  \<open>set\<close> wraps the same way. The coordinate wrap is the mathematical modulo: it maps
  \<open>(x, y)\<close> to an index \<open>(u, v)\<close> with \<open>0 \<le> u < W\<close> and \<open>0 \<le> v < H\<close>, and the access
  succeeds on the cell in row \<open>v\<close> and column \<open>u\<close>.
\<close>

theorem getitem_wraparound:
  assumes "valid_grid h a"
  shows "getitem h a (x + width (grids h ! a), y) = getitem h a (x, y) \<and>
     getitem h a (x, y + height (grids h ! a)) = getitem h a (x, y) \<and>
     getitem h a (- 1, 0) = getitem h a (width (grids h ! a) - 1, 0) \<and>
     setitem h a (x + width (grids h ! a), y) c = setitem h a (x, y) c \<and>
     setitem h a (x, y + height (grids h ! a)) c = setitem h a (x, y) c \<and>
     (\<exists>u v. py_mod x (width (grids h ! a)) = Inr u \<and> py_mod y (height (grids h ! a)) = Inr v \<and>
        0 \<le> u \<and> u < width (grids h ! a) \<and> 0 \<le> v \<and> v < height (grids h ! a) \<and>
        getitem h a (x, y) = Inr (cells h a ! nat v ! nat u))"
proof -
  have W: "0 < width (grids h ! a)" and H: "0 < height (grids h ! a)"
    using valid_gridD(2,3) [OF assms] .
  have g: "getitem h a (x + width (grids h ! a), y) = getitem h a (x, y)"
    "getitem h a (x, y + height (grids h ! a)) = getitem h a (x, y)"
    "getitem h a (- 1, 0) = getitem h a (width (grids h ! a) - 1, 0)"
    by (simp_all add: getitem_valid [OF assms] cell_at_def)
  have s: "setitem h a (x + width (grids h ! a), y) c = setitem h a (x, y) c"
    "setitem h a (x, y + height (grids h ! a)) c = setitem h a (x, y) c"
    by (simp_all add: setitem_valid [OF assms])
  have r: "py_mod x (width (grids h ! a)) = Inr (x mod width (grids h ! a))"
    "py_mod y (height (grids h ! a)) = Inr (y mod height (grids h ! a))"
    "0 \<le> x mod width (grids h ! a)" "x mod width (grids h ! a) < width (grids h ! a)"
    "0 \<le> y mod height (grids h ! a)" "y mod height (grids h ! a) < height (grids h ! a)"
    "getitem h a (x, y) =
       Inr (cells h a ! nat (y mod height (grids h ! a)) ! nat (x mod width (grids h ! a)))"
    using W H by (simp_all add: py_mod_pos getitem_valid [OF assms] cell_at_def)
  from r have "\<exists>u v. py_mod x (width (grids h ! a)) = Inr u \<and>
        py_mod y (height (grids h ! a)) = Inr v \<and>
        0 \<le> u \<and> u < width (grids h ! a) \<and> 0 \<le> v \<and> v < height (grids h ! a) \<and>
        getitem h a (x, y) = Inr (cells h a ! nat v ! nat u)"
    by (intro exI conjI)
  with g s show ?thesis by (intro conjI)
qed

theorem getitem_wraparound_witness:
  "valid_grid blinker_store 0 \<and>
   (getitem blinker_store 0 (7 + width (grids blinker_store ! 0), - 3) =
      getitem blinker_store 0 (7, - 3) \<and>
    getitem blinker_store 0 (7, - 3 + height (grids blinker_store ! 0)) =
      getitem blinker_store 0 (7, - 3) \<and>
    getitem blinker_store 0 (- 1, 0) = getitem blinker_store 0 (width (grids blinker_store ! 0) - 1, 0) \<and>
    setitem blinker_store 0 (7 + width (grids blinker_store ! 0), - 3) EMPTY =
      setitem blinker_store 0 (7, - 3) EMPTY \<and>
    setitem blinker_store 0 (7, - 3 + height (grids blinker_store ! 0)) EMPTY =
      setitem blinker_store 0 (7, - 3) EMPTY \<and>
    (\<exists>u v. py_mod 7 (width (grids blinker_store ! 0)) = Inr u \<and>
        py_mod (- 3) (height (grids blinker_store ! 0)) = Inr v \<and>
        0 \<le> u \<and> u < width (grids blinker_store ! 0) \<and>
        0 \<le> v \<and> v < height (grids blinker_store ! 0) \<and>
        getitem blinker_store 0 (7, - 3) = Inr (cells blinker_store 0 ! nat v ! nat u)))"
  by (rule conjI [OF valid_blinker_store getitem_wraparound [OF valid_blinker_store]])

subsection \<open>step: the frame\<close>

lemma setitem_disjoint:
  assumes v: "valid_grid h a"
    and d: "\<And>r. r \<in> set (grid_rows h a) \<Longrightarrow> r \<notin> set (grid_rows h b)"
  shows "\<exists>h'. setitem h a (x, y) c = Inr h' \<and> grids h' = grids h \<and> cells h' b = cells h b"
proof -
  let ?r = "grid_rows h a ! nat (y mod height (grids h ! a))"
  let ?h' = "h\<lparr>rows := (rows h)[?r := (rows h ! ?r)[nat (x mod width (grids h ! a)) := c]]\<rparr>"
  have "?r \<in> set (grid_rows h a)"
    using row_index [OF v] by simp
  then have nr: "?r \<notin> set (grid_rows h b)" by (rule d)
  have same: "rows ?h' ! r' = rows h ! r'" if "r' \<in> set (grid_rows h b)" for r'
  proof -
    from that nr have "?r \<noteq> r'" by blast
    then show ?thesis by simp
  qed
  have gr: "grid_rows ?h' b = grid_rows h b"
    by (simp add: grid_rows_def)
  have "cells ?h' b = cells h b"
    unfolding cells_def gr using same by (intro map_cong refl)
  moreover have "setitem h a (x, y) c = Inr ?h'" by (rule setitem_valid [OF v])
  moreover have "grids ?h' = grids h" by simp
  ultimately show ?thesis by (intro exI [of _ ?h'] conjI)
qed

text \<open>
  C3: \<open>step\<close> on a well-formed grid \<open>g\<close> succeeds and returns a new object. Every object
  that was in the store is unaltered afterwards, so the attributes of \<open>g\<close> (width, height,
  generation) and its cells are; the result has the generation of \<open>g\<close> plus one and the
  same width and height; its \<open>data\<close> list and its rows are new objects, and a write to any
  cell of the result again leaves every object of the old store unaltered, and a write to
  any cell of \<open>g\<close> after the call leaves the cells of the result unaltered.
\<close>

theorem step_leaves_input:
  assumes "valid_grid h g"
  shows "\<exists>h'. step h g = Inr (length (grids h), h') \<and>
     objects_preserved h h' \<and>
     grids h' ! g = grids h ! g \<and> cells h' g = cells h g \<and> valid_grid h' g \<and>
     generation (grids h' ! length (grids h)) = generation (grids h ! g) + 1 \<and>
     width (grids h' ! length (grids h)) = width (grids h ! g) \<and>
     height (grids h' ! length (grids h)) = height (grids h ! g) \<and>
     valid_grid h' (length (grids h)) \<and>
     length (outers h) \<le> data (grids h' ! length (grids h)) \<and>
     (\<forall>r\<in>set (grid_rows h' (length (grids h))). length (rows h) \<le> r) \<and>
     (\<forall>x y c. \<exists>h''. setitem h' (length (grids h)) (x, y) c = Inr h'' \<and>
        objects_preserved h h'' \<and> grids h'' ! g = grids h ! g \<and> cells h'' g = cells h g) \<and>
     (\<forall>x y c. \<exists>h''. setitem h' g (x, y) c = Inr h'' \<and> grids h'' = grids h' \<and>
        cells h'' (length (grids h)) = cells h' (length (grids h)))"
proof -
  define M where "M = next_cells (cells h g) (width (grids h ! g)) (height (grids h ! g))"
  define h' where "h' = step_heap h g M"
  let ?n = "length (grids h)"
  note r = step_result [OF assms, folded M_def, folded h'_def]
  have p: "objects_preserved h h'"
    unfolding h'_def by (rule step_heap_preserved)
  have fresh: "length (rows h) \<le> r" if "r \<in> set (grid_rows h' ?n)" for r
    using that unfolding r(4) by simp
  have d: "length (outers h) \<le> data (grids h' ! ?n)"
    by (simp add: h'_def step_heap_def)
  have s: "\<exists>h''. setitem h' ?n (x, y) c = Inr h'' \<and>
        objects_preserved h h'' \<and> grids h'' ! g = grids h ! g \<and> cells h'' g = cells h g"
    for x y c
  proof -
    obtain h'' where h'': "setitem h' ?n (x, y) c = Inr h''" "objects_preserved h h''"
      using setitem_fresh_preserved [OF r(2) p fresh] by blast
    then show ?thesis
      using preserved_grid [OF h''(2) assms] preserved_cells [OF h''(2) assms] by blast
  qed
  have all_fresh: "\<forall>r\<in>set (grid_rows h' ?n). length (rows h) \<le> r"
    using fresh by (rule ballI)
  have all_s: "\<forall>x y c. \<exists>h''. setitem h' ?n (x, y) c = Inr h'' \<and>
        objects_preserved h h'' \<and> grids h'' ! g = grids h ! g \<and> cells h'' g = cells h g"
    using s by (intro allI)
  have old: "r \<notin> set (grid_rows h' ?n)" if "r \<in> set (grid_rows h' g)" for r
  proof -
    have "r < length (rows h)"
      using that valid_gridD(8) [OF assms]
      unfolding preserved_grid_rows [OF p assms] by (auto simp: in_set_conv_nth)
    then show ?thesis unfolding r(4) by simp
  qed
  have all_b: "\<forall>x y c. \<exists>h''. setitem h' g (x, y) c = Inr h'' \<and> grids h'' = grids h' \<and>
        cells h'' ?n = cells h' ?n"
    using setitem_disjoint [OF preserved_valid [OF p assms] old] by (intro allI)
  from r(1) p preserved_grid [OF p assms] preserved_cells [OF p assms]
    preserved_valid [OF p assms] r(7,5,6,2) d all_fresh all_s all_b
  show ?thesis
    by (intro exI [of _ h'] conjI)
qed

theorem step_leaves_input_witness:
  "valid_grid blinker_store 0 \<and>
   (\<exists>h'. step blinker_store 0 = Inr (length (grids blinker_store), h') \<and>
     objects_preserved blinker_store h' \<and>
     grids h' ! 0 = grids blinker_store ! 0 \<and> cells h' 0 = cells blinker_store 0 \<and>
     valid_grid h' 0 \<and>
     generation (grids h' ! length (grids blinker_store)) =
       generation (grids blinker_store ! 0) + 1 \<and>
     width (grids h' ! length (grids blinker_store)) = width (grids blinker_store ! 0) \<and>
     height (grids h' ! length (grids blinker_store)) = height (grids blinker_store ! 0) \<and>
     valid_grid h' (length (grids blinker_store)) \<and>
     length (outers blinker_store) \<le> data (grids h' ! length (grids blinker_store)) \<and>
     (\<forall>r\<in>set (grid_rows h' (length (grids blinker_store))). length (rows blinker_store) \<le> r) \<and>
     (\<forall>x y c. \<exists>h''. setitem h' (length (grids blinker_store)) (x, y) c = Inr h'' \<and>
        objects_preserved blinker_store h'' \<and> grids h'' ! 0 = grids blinker_store ! 0 \<and>
        cells h'' 0 = cells blinker_store 0) \<and>
     (\<forall>x y c. \<exists>h''. setitem h' 0 (x, y) c = Inr h'' \<and> grids h'' = grids h' \<and>
        cells h'' (length (grids blinker_store)) = cells h' (length (grids blinker_store))))"
  by (rule conjI [OF valid_blinker_store step_leaves_input [OF valid_blinker_store]])

subsection \<open>step: the rule\<close>

text \<open>
  C4: for every cell \<open>(i, j)\<close> of a well-formed grid \<open>g\<close>, with \<open>n\<close> the number of the eight
  wrapped Moore neighbours that are filled in \<open>g\<close> (in the store before the call): a filled
  cell is filled in \<open>step(g)\<close> if \<open>n\<close> is 2 or 3 and empty otherwise; an empty cell is filled
  in \<open>step(g)\<close> if \<open>n\<close> is 3 and empty otherwise.
\<close>

theorem step_rule:
  assumes "valid_grid h g"
  shows "\<exists>h'. step h g = Inr (length (grids h), h') \<and>
     (\<forall>i j. 0 \<le> i \<and> i < width (grids h ! g) \<and> 0 \<le> j \<and> j < height (grids h ! g) \<longrightarrow>
        (getitem h g (i, j) = Inr FILLED \<longrightarrow>
           getitem h' (length (grids h)) (i, j) =
             Inr (if filled_neighbours h g i j = 2 \<or> filled_neighbours h g i j = 3
                  then FILLED else EMPTY)) \<and>
        (getitem h g (i, j) = Inr EMPTY \<longrightarrow>
           getitem h' (length (grids h)) (i, j) =
             Inr (if filled_neighbours h g i j = 3 then FILLED else EMPTY)))"
proof -
  define cs where "cs = cells h g"
  define W where "W = width (grids h ! g)"
  define H where "H = height (grids h ! g)"
  define M where "M = next_cells cs W H"
  define h' where "h' = step_heap h g M"
  let ?n = "length (grids h)"
  note r = step_result [OF assms, folded cs_def W_def H_def, folded M_def, folded h'_def]
  have ef: "EMPTY \<noteq> FILLED" by (simp add: EMPTY_def FILLED_def)
  have cell: "(getitem h g (i, j) = Inr FILLED \<longrightarrow>
           getitem h' ?n (i, j) =
             Inr (if filled_neighbours h g i j = 2 \<or> filled_neighbours h g i j = 3
                  then FILLED else EMPTY)) \<and>
        (getitem h g (i, j) = Inr EMPTY \<longrightarrow>
           getitem h' ?n (i, j) =
             Inr (if filled_neighbours h g i j = 3 then FILLED else EMPTY))"
    if ij: "0 \<le> i" "i < W" "0 \<le> j" "j < H" for i j
  proof -
    have old: "getitem h g (i, j) = Inr (cell_at cs W H i j)"
      by (simp add: getitem_valid [OF assms] cs_def W_def H_def)
    have n: "filled_neighbours h g i j = count_at cs W H i j"
      by (simp add: filled_neighbours_valid [OF assms] cs_def W_def H_def)
    have "getitem h' ?n (i, j) = Inr (M ! nat j ! nat i)"
      using ij by (simp add: getitem_valid [OF r(2)] r(3,5,6) cell_at_def)
    also have "M ! nat j ! nat i = new_cell cs W H i j"
      using ij by (simp add: M_def next_cells_nth)
    finally have new: "getitem h' ?n (i, j) = Inr (new_cell cs W H i j)" .
    show ?thesis
      unfolding old n new using ef by (auto simp: new_cell_def Let_def)
  qed
  have "\<forall>i j. 0 \<le> i \<and> i < W \<and> 0 \<le> j \<and> j < H \<longrightarrow>
        (getitem h g (i, j) = Inr FILLED \<longrightarrow>
           getitem h' ?n (i, j) =
             Inr (if filled_neighbours h g i j = 2 \<or> filled_neighbours h g i j = 3
                  then FILLED else EMPTY)) \<and>
        (getitem h g (i, j) = Inr EMPTY \<longrightarrow>
           getitem h' ?n (i, j) =
             Inr (if filled_neighbours h g i j = 3 then FILLED else EMPTY))"
    using cell by (intro allI impI) (elim conjE)
  with r(1) show ?thesis
    unfolding W_def H_def by (intro exI [of _ h'] conjI)
qed

theorem step_rule_witness:
  "valid_grid blinker_store 0 \<and>
   (\<exists>h'. step blinker_store 0 = Inr (length (grids blinker_store), h') \<and>
     (\<forall>i j. 0 \<le> i \<and> i < width (grids blinker_store ! 0) \<and>
            0 \<le> j \<and> j < height (grids blinker_store ! 0) \<longrightarrow>
        (getitem blinker_store 0 (i, j) = Inr FILLED \<longrightarrow>
           getitem h' (length (grids blinker_store)) (i, j) =
             Inr (if filled_neighbours blinker_store 0 i j = 2 \<or>
                     filled_neighbours blinker_store 0 i j = 3
                  then FILLED else EMPTY)) \<and>
        (getitem blinker_store 0 (i, j) = Inr EMPTY \<longrightarrow>
           getitem h' (length (grids blinker_store)) (i, j) =
             Inr (if filled_neighbours blinker_store 0 i j = 3 then FILLED else EMPTY))))"
  by (rule conjI [OF valid_blinker_store step_rule [OF valid_blinker_store]])

lemma EMPTY_neq_FILLED: "EMPTY \<noteq> FILLED" "FILLED \<noteq> EMPTY"
  by (simp_all add: EMPTY_def FILLED_def)

lemma cells_shape:
  assumes v: "valid_grid h a"
  shows "length (cells h a) = nat (height (grids h ! a))"
    and "k < nat (height (grids h ! a)) \<Longrightarrow> length (cells h a ! k) = nat (width (grids h ! a))"
  using valid_gridD(6) [OF v] valid_gridD(10) [OF v, of k]
  by (simp_all add: cells_def)

lemma getitem_in_range:
  assumes v: "valid_grid h a"
    and "0 \<le> x" "x < width (grids h ! a)" "0 \<le> y" "y < height (grids h ! a)"
  shows "getitem h a (x, y) = Inr (cells h a ! nat y ! nat x)"
  using assms(2-5) by (simp add: getitem_valid [OF v] cell_at_def)

lemma all_cells_cells:
  assumes v: "valid_grid h a"
  shows "all_cells h a (\<lambda>x y c. c = Inr (f x y)) \<longleftrightarrow>
    cells h a = map (\<lambda>j. map (\<lambda>i. f (int i) (int j)) [0..<nat (width (grids h ! a))])
      [0..<nat (height (grids h ! a))]"
    (is "?L \<longleftrightarrow> cells h a = ?T")
proof
  assume L: ?L
  show "cells h a = ?T"
  proof (rule matrix_eqI [where n = "nat (height (grids h ! a))" and m = "nat (width (grids h ! a))"])
    fix k l assume kl: "k < nat (height (grids h ! a))" "l < nat (width (grids h ! a))"
    have "getitem h a (int l, int k) = Inr (f (int l) (int k))"
      using kl by (intro all_cellsD [OF L]) simp_all
    moreover have "getitem h a (int l, int k) = Inr (cells h a ! k ! l)"
      using kl getitem_in_range [OF v, of "int l" "int k"] by simp
    ultimately show "cells h a ! k ! l = ?T ! k ! l"
      using kl by simp
  qed (simp_all add: cells_shape [OF v])
next
  assume R: "cells h a = ?T"
  show ?L
  proof (rule all_cellsI)
    fix x y assume xy: "0 \<le> x" "x < width (grids h ! a)" "0 \<le> y" "y < height (grids h ! a)"
    have "cells h a ! nat y ! nat x = f x y"
      unfolding R using xy by simp
    then show "getitem h a (x, y) = Inr (f x y)"
      by (simp add: getitem_in_range [OF v xy])
  qed
qed

lemma step_cells:
  assumes v: "valid_grid h g"
  shows "\<exists>h'. step h g = Inr (length (grids h), h') \<and>
     valid_grid h' (length (grids h)) \<and>
     length (grids h') = Suc (length (grids h)) \<and>
     width (grids h' ! length (grids h)) = width (grids h ! g) \<and>
     height (grids h' ! length (grids h)) = height (grids h ! g) \<and>
     cells h' (length (grids h)) =
       next_cells (cells h g) (width (grids h ! g)) (height (grids h ! g))"
  using step_result [OF v] by (simp add: step_heap_def)

lemma blinker_next:
  "next_cells
     [[EMPTY, EMPTY, EMPTY, EMPTY, EMPTY],
      [EMPTY, EMPTY, EMPTY, EMPTY, EMPTY],
      [EMPTY, FILLED, FILLED, FILLED, EMPTY],
      [EMPTY, EMPTY, EMPTY, EMPTY, EMPTY],
      [EMPTY, EMPTY, EMPTY, EMPTY, EMPTY]] 5 5 =
     [[EMPTY, EMPTY, EMPTY, EMPTY, EMPTY],
      [EMPTY, EMPTY, FILLED, EMPTY, EMPTY],
      [EMPTY, EMPTY, FILLED, EMPTY, EMPTY],
      [EMPTY, EMPTY, FILLED, EMPTY, EMPTY],
      [EMPTY, EMPTY, EMPTY, EMPTY, EMPTY]]"
  by (simp add: next_cells_def new_cell_def count_at_def cell_at_def spec_moore_offsets_def
      EMPTY_neq_FILLED Let_def upt_rec)

lemma blinker_next_next:
  "next_cells
     [[EMPTY, EMPTY, EMPTY, EMPTY, EMPTY],
      [EMPTY, EMPTY, FILLED, EMPTY, EMPTY],
      [EMPTY, EMPTY, FILLED, EMPTY, EMPTY],
      [EMPTY, EMPTY, FILLED, EMPTY, EMPTY],
      [EMPTY, EMPTY, EMPTY, EMPTY, EMPTY]] 5 5 =
     [[EMPTY, EMPTY, EMPTY, EMPTY, EMPTY],
      [EMPTY, EMPTY, EMPTY, EMPTY, EMPTY],
      [EMPTY, FILLED, FILLED, FILLED, EMPTY],
      [EMPTY, EMPTY, EMPTY, EMPTY, EMPTY],
      [EMPTY, EMPTY, EMPTY, EMPTY, EMPTY]]"
  by (simp add: next_cells_def new_cell_def count_at_def cell_at_def spec_moore_offsets_def
      EMPTY_neq_FILLED Let_def upt_rec)

lemma tabulate_horizontal:
  "map (\<lambda>j. map (\<lambda>i. if (int i, int j) \<in> {(1, 2), (2, 2), (3, 2)} then FILLED else EMPTY)
      [0..<nat 5]) [0..<nat 5] =
     [[EMPTY, EMPTY, EMPTY, EMPTY, EMPTY],
      [EMPTY, EMPTY, EMPTY, EMPTY, EMPTY],
      [EMPTY, FILLED, FILLED, FILLED, EMPTY],
      [EMPTY, EMPTY, EMPTY, EMPTY, EMPTY],
      [EMPTY, EMPTY, EMPTY, EMPTY, EMPTY]]"
  by (simp add: upt_rec)

lemma tabulate_vertical:
  "map (\<lambda>j. map (\<lambda>i. if (int i, int j) \<in> {(2, 1), (2, 2), (2, 3)} then FILLED else EMPTY)
      [0..<nat 5]) [0..<nat 5] =
     [[EMPTY, EMPTY, EMPTY, EMPTY, EMPTY],
      [EMPTY, EMPTY, FILLED, EMPTY, EMPTY],
      [EMPTY, EMPTY, FILLED, EMPTY, EMPTY],
      [EMPTY, EMPTY, FILLED, EMPTY, EMPTY],
      [EMPTY, EMPTY, EMPTY, EMPTY, EMPTY]]"
  by (simp add: upt_rec)


subsection \<open>The blinker\<close>

text \<open>
  C6: on a 5 by 5 grid whose filled cells are exactly (1,2), (2,2) and (3,2), the others being
  empty, \<open>step\<close> returns a 5 by 5 grid whose filled cells are exactly (2,1), (2,2) and
  (2,3), and \<open>step\<close> on that grid returns one whose filled cells are (1,2), (2,2) and (3,2)
  again.
\<close>

theorem blinker_period_two:
  assumes v: "valid_grid h g"
    and W: "width (grids h ! g) = 5" and H: "height (grids h ! g) = 5"
    and B: "all_cells h g
      (\<lambda>x y c. c = Inr (if (x, y) \<in> {(1, 2), (2, 2), (3, 2)} then FILLED else EMPTY))"
  shows "\<exists>h1 h2.
     step h g = Inr (length (grids h), h1) \<and>
     width (grids h1 ! length (grids h)) = 5 \<and> height (grids h1 ! length (grids h)) = 5 \<and>
     all_cells h1 (length (grids h))
       (\<lambda>x y c. c = Inr (if (x, y) \<in> {(2, 1), (2, 2), (2, 3)} then FILLED else EMPTY)) \<and>
     step h1 (length (grids h)) = Inr (Suc (length (grids h)), h2) \<and>
     width (grids h2 ! Suc (length (grids h))) = 5 \<and>
     height (grids h2 ! Suc (length (grids h))) = 5 \<and>
     all_cells h2 (Suc (length (grids h)))
       (\<lambda>x y c. c = Inr (if (x, y) \<in> {(1, 2), (2, 2), (3, 2)} then FILLED else EMPTY))"
proof -
  let ?n = "length (grids h)"
  have c0: "cells h g =
     [[EMPTY, EMPTY, EMPTY, EMPTY, EMPTY],
      [EMPTY, EMPTY, EMPTY, EMPTY, EMPTY],
      [EMPTY, FILLED, FILLED, FILLED, EMPTY],
      [EMPTY, EMPTY, EMPTY, EMPTY, EMPTY],
      [EMPTY, EMPTY, EMPTY, EMPTY, EMPTY]]"
    using B unfolding all_cells_cells [OF v] W H tabulate_horizontal .
  obtain h1 where h1: "step h g = Inr (?n, h1)" "valid_grid h1 ?n"
    "length (grids h1) = Suc ?n" "width (grids h1 ! ?n) = 5" "height (grids h1 ! ?n) = 5"
    "cells h1 ?n = next_cells (cells h g) 5 5"
    using step_cells [OF v] unfolding W H by blast
  have c1: "cells h1 ?n =
     [[EMPTY, EMPTY, EMPTY, EMPTY, EMPTY],
      [EMPTY, EMPTY, FILLED, EMPTY, EMPTY],
      [EMPTY, EMPTY, FILLED, EMPTY, EMPTY],
      [EMPTY, EMPTY, FILLED, EMPTY, EMPTY],
      [EMPTY, EMPTY, EMPTY, EMPTY, EMPTY]]"
    unfolding h1(6) c0 by (rule blinker_next)
  have a1: "all_cells h1 ?n
       (\<lambda>x y c. c = Inr (if (x, y) \<in> {(2, 1), (2, 2), (2, 3)} then FILLED else EMPTY))"
    unfolding all_cells_cells [OF h1(2)] h1(4,5) tabulate_vertical by (rule c1)
  obtain h2 where h2: "step h1 ?n = Inr (Suc ?n, h2)" "valid_grid h2 (Suc ?n)"
    "width (grids h2 ! Suc ?n) = 5" "height (grids h2 ! Suc ?n) = 5"
    "cells h2 (Suc ?n) = next_cells (cells h1 ?n) 5 5"
    using step_cells [OF h1(2)] unfolding h1(3,4,5) by blast
  have c2: "cells h2 (Suc ?n) =
     [[EMPTY, EMPTY, EMPTY, EMPTY, EMPTY],
      [EMPTY, EMPTY, EMPTY, EMPTY, EMPTY],
      [EMPTY, FILLED, FILLED, FILLED, EMPTY],
      [EMPTY, EMPTY, EMPTY, EMPTY, EMPTY],
      [EMPTY, EMPTY, EMPTY, EMPTY, EMPTY]]"
    unfolding h2(5) c1 by (rule blinker_next_next)
  have a2: "all_cells h2 (Suc ?n)
       (\<lambda>x y c. c = Inr (if (x, y) \<in> {(1, 2), (2, 2), (3, 2)} then FILLED else EMPTY))"
    unfolding all_cells_cells [OF h2(2)] h2(3,4) tabulate_horizontal by (rule c2)
  from h1(1,4,5) a1 h2(1,3,4) a2 show ?thesis
    by (intro exI [of _ h1] exI [of _ h2] conjI)
qed

lemma blinker_store_cells:
  "all_cells blinker_store 0
      (\<lambda>x y c. c = Inr (if (x, y) \<in> {(1, 2), (2, 2), (3, 2)} then FILLED else EMPTY))"
  unfolding all_cells_cells [OF valid_blinker_store]
  by (simp add: blinker_store_def cells_def grid_rows_def upt_rec)

theorem blinker_period_two_witness:
  "(valid_grid blinker_store 0 \<and> width (grids blinker_store ! 0) = 5 \<and>
    height (grids blinker_store ! 0) = 5 \<and>
    all_cells blinker_store 0
      (\<lambda>x y c. c = Inr (if (x, y) \<in> {(1, 2), (2, 2), (3, 2)} then FILLED else EMPTY))) \<and>
   (\<exists>h1 h2.
     step blinker_store 0 = Inr (length (grids blinker_store), h1) \<and>
     width (grids h1 ! length (grids blinker_store)) = 5 \<and>
     height (grids h1 ! length (grids blinker_store)) = 5 \<and>
     all_cells h1 (length (grids blinker_store))
       (\<lambda>x y c. c = Inr (if (x, y) \<in> {(2, 1), (2, 2), (2, 3)} then FILLED else EMPTY)) \<and>
     step h1 (length (grids blinker_store)) = Inr (Suc (length (grids blinker_store)), h2) \<and>
     width (grids h2 ! Suc (length (grids blinker_store))) = 5 \<and>
     height (grids h2 ! Suc (length (grids blinker_store))) = 5 \<and>
     all_cells h2 (Suc (length (grids blinker_store)))
       (\<lambda>x y c. c = Inr (if (x, y) \<in> {(1, 2), (2, 2), (3, 2)} then FILLED else EMPTY)))"
proof -
  have W: "width (grids blinker_store ! 0) = 5" and H: "height (grids blinker_store ! 0) = 5"
    by (simp_all add: blinker_store_def)
  show ?thesis
    using valid_blinker_store W H blinker_store_cells
      blinker_period_two [OF valid_blinker_store W H blinker_store_cells]
    by (intro conjI)
qed

lemma blinker_store_built:
  "bind_r (Grid_init empty_heap 5 5)
     (\<lambda>(g, h). add_pattern h g [(1, 2), (2, 2), (3, 2)] 0 0) = Inr blinker_store"
  by (simp add: Grid_init_result empty_heap_def add_pattern_def setitem_def deref_def
      py_mod_def py_index_def py_store_def blinker_store_def upt_rec numeral_eq_Suc)

subsection \<open>The grid of one cell\<close>

text \<open>
  C8: \<open>Grid(1, 1)\<close> succeeds with a well-formed grid of one empty cell. On a well-formed
  1 by 1 grid each of the eight neighbour offsets of \<open>step\<close> reads the cell itself, so the
  count is 8 when the cell is filled and 0 otherwise, and the rule is applied to that
  count: a filled cell is empty after \<open>step\<close>, and an empty cell stays empty.
\<close>

theorem single_cell_grid:
  "(\<exists>h'. Grid_init h 1 1 = Inr (length (grids h), h') \<and> valid_grid h' (length (grids h)) \<and>
      cells h' (length (grids h)) = [[EMPTY]]) \<and>
   (valid_grid h g \<and> width (grids h ! g) = 1 \<and> height (grids h ! g) = 1 \<longrightarrow>
      (\<forall>n\<in>set (py_range 8).
         getitem h g (0 + fst (neighbour_offset n), 0 + snd (neighbour_offset n)) =
           getitem h g (0, 0)) \<and>
      count_loop h g 0 0 (py_range 8) 0 =
        Inr (if getitem h g (0, 0) = Inr FILLED then 8 else 0) \<and>
      (\<exists>h'. step h g = Inr (length (grids h), h') \<and>
         (getitem h g (0, 0) = Inr FILLED \<or> getitem h g (0, 0) = Inr EMPTY \<longrightarrow>
            getitem h' (length (grids h)) (0, 0) = Inr EMPTY)))"
proof (intro conjI impI)
  show "\<exists>h'. Grid_init h 1 1 = Inr (length (grids h), h') \<and> valid_grid h' (length (grids h)) \<and>
      cells h' (length (grids h)) = [[EMPTY]]"
  proof -
    define h' where "h' =
      \<lparr>grids = grids h @ [\<lparr>width = 1, height = 1, data = length (outers h), generation = 0\<rparr>],
       outers = outers h @ [[length (rows h)..<length (rows h) + nat 1]],
       rows = rows h @ replicate (nat 1) (replicate (nat 1) EMPTY)\<rparr>"
    have 1: "Grid_init h 1 1 = Inr (length (grids h), h')"
      unfolding h'_def by (rule Grid_init_result)
    have 2: "valid_grid h' (length (grids h))"
      by (rule valid_Grid_init [OF h'_def]) simp_all
    have 3: "cells h' (length (grids h)) = [[EMPTY]]"
      using cells_Grid_init [OF h'_def] by simp
    from 1 2 3 show ?thesis by (intro exI [of _ h'] conjI)
  qed
next
  assume a: "valid_grid h g \<and> width (grids h ! g) = 1 \<and> height (grids h ! g) = 1"
  then have v: "valid_grid h g" and W: "width (grids h ! g) = 1" and H: "height (grids h ! g) = 1"
    by simp_all
  have get: "getitem h g t = Inr (cells h g ! 0 ! 0)" for t
    by (cases t) (simp add: getitem_valid [OF v] W H cell_at_def)
  show "\<forall>n\<in>set (py_range 8).
         getitem h g (0 + fst (neighbour_offset n), 0 + snd (neighbour_offset n)) =
           getitem h g (0, 0)"
    by (simp add: get)
  have cnt: "count_at (cells h g) 1 1 0 0 = (if cells h g ! 0 ! 0 = FILLED then 8 else 0)"
    by (simp add: count_at_def cell_at_def spec_moore_offsets_def)
  show "count_loop h g 0 0 (py_range 8) 0 =
        Inr (if getitem h g (0, 0) = Inr FILLED then 8 else 0)"
    using count_loop_range8 [OF v, of 0 0] by (simp add: W H cnt get)
  obtain h' where h': "step h g = Inr (length (grids h), h')" "valid_grid h' (length (grids h))"
    "width (grids h' ! length (grids h)) = 1" "height (grids h' ! length (grids h)) = 1"
    "cells h' (length (grids h)) = next_cells (cells h g) 1 1"
    using step_cells [OF v] unfolding W H by blast
  have new: "getitem h' (length (grids h)) (0, 0) = Inr (new_cell (cells h g) 1 1 0 0)"
    by (simp add: getitem_valid [OF h'(2)] h'(3,4,5) cell_at_def next_cells_def)
  have "getitem h' (length (grids h)) (0, 0) = Inr EMPTY"
    if "getitem h g (0, 0) = Inr FILLED \<or> getitem h g (0, 0) = Inr EMPTY"
    using that unfolding new get
    by (auto simp add: new_cell_def cnt cell_at_def Let_def EMPTY_neq_FILLED)
  with h'(1) show "\<exists>h'. step h g = Inr (length (grids h), h') \<and>
         (getitem h g (0, 0) = Inr FILLED \<or> getitem h g (0, 0) = Inr EMPTY \<longrightarrow>
            getitem h' (length (grids h)) (0, 0) = Inr EMPTY)"
    by blast
qed


lemma single_store_built:
  "bind_r (Grid_init empty_heap 1 1) (\<lambda>(g, h). setitem h g (0, 0) FILLED) = Inr single_store"
  by (simp add: Grid_init_result empty_heap_def setitem_def deref_def py_mod_def py_index_def
      py_store_def single_store_def)

theorem single_cell_grid_witness:
  "(valid_grid single_store 0 \<and> width (grids single_store ! 0) = 1 \<and>
    height (grids single_store ! 0) = 1) \<and>
   getitem single_store 0 (0 + fst (neighbour_offset 3), 0 + snd (neighbour_offset 3)) =
     getitem single_store 0 (0, 0) \<and>
   count_loop single_store 0 0 0 (py_range 8) 0 = Inr 8 \<and>
   (\<exists>h'. step single_store 0 = Inr (length (grids single_store), h') \<and>
      getitem h' (length (grids single_store)) (0, 0) = Inr EMPTY)"
proof -
  have a: "valid_grid single_store 0 \<and> width (grids single_store ! 0) = 1 \<and>
    height (grids single_store ! 0) = 1"
    by (simp add: single_store_def valid_grid_def grid_rows_def)
  note t = single_cell_grid [of single_store 0, THEN conjunct2, THEN mp, OF a]
  have m: "3 \<in> set (py_range 8)"
    by (simp add: py_range_8)
  have g: "getitem single_store 0 (0, 0) = Inr FILLED"
    by (simp add: getitem_def deref_def py_mod_def py_index_def single_store_def)
  have 1: "getitem single_store 0 (0 + fst (neighbour_offset 3), 0 + snd (neighbour_offset 3)) =
     getitem single_store 0 (0, 0)"
    using t [THEN conjunct1] m by (rule bspec)
  have 2: "count_loop single_store 0 0 0 (py_range 8) 0 = Inr 8"
    using t [THEN conjunct2, THEN conjunct1] unfolding g by simp
  obtain h' where h': "step single_store 0 = Inr (length (grids single_store), h')"
    "getitem single_store 0 (0, 0) = Inr FILLED \<or> getitem single_store 0 (0, 0) = Inr EMPTY \<longrightarrow>
       getitem h' (length (grids single_store)) (0, 0) = Inr EMPTY"
    using t [THEN conjunct2, THEN conjunct2] by blast
  have 3: "getitem h' (length (grids single_store)) (0, 0) = Inr EMPTY"
    using h'(2) g by blast
  from h'(1) 3 have 4: "\<exists>h'. step single_store 0 = Inr (length (grids single_store), h') \<and>
      getitem h' (length (grids single_store)) (0, 0) = Inr EMPTY"
    by (intro exI [of _ h'] conjI)
  show ?thesis
    by (rule conjI [OF a conjI [OF 1 conjI [OF 2 4]]])
qed

subsection \<open>Writing cells and stamping patterns\<close>

lemma setitem_same:
  assumes v: "valid_grid h a" and g: "getitem h a (x, y) = Inr c"
  shows "setitem h a (x, y) c = Inr h"
proof -
  let ?k = "nat (y mod height (grids h ! a))"
  let ?r = "grid_rows h a ! ?k"
  let ?i = "nat (x mod width (grids h ! a))"
  have k: "?k < length (grid_rows h a)" by (rule row_index [OF v])
  have "cells h a ! ?k ! ?i = c"
    using g unfolding getitem_valid [OF v] cell_at_def by simp
  then have c: "rows h ! ?r ! ?i = c"
    using k by (simp add: cells_def)
  have "(rows h ! ?r)[?i := c] = rows h ! ?r"
    unfolding c [symmetric] by (rule list_update_id)
  then have "h\<lparr>rows := (rows h)[?r := (rows h ! ?r)[?i := c]]\<rparr> = h"
    by simp
  then show ?thesis
    unfolding setitem_valid [OF v] by simp
qed

lemma valid_grid_cong:
  assumes "grids h' = grids h" "outers h' = outers h" "length (rows h') = length (rows h)"
    "\<And>r. length (rows h' ! r) = length (rows h ! r)"
  shows "valid_grid h' b = valid_grid h b"
  by (simp add: valid_grid_def grid_rows_def assms)

lemma map_nth_update_distinct:
  assumes "distinct rs" "k < length rs"
  shows "map (\<lambda>r. xs[rs ! k := v] ! r) rs = (map (\<lambda>r. xs ! r) rs)[k := xs[rs ! k := v] ! (rs ! k)]"
proof (rule nth_equalityI)
  fix i assume "i < length (map (\<lambda>r. xs[rs ! k := v] ! r) rs)"
  then have i: "i < length rs" by simp
  show "map (\<lambda>r. xs[rs ! k := v] ! r) rs ! i =
      (map (\<lambda>r. xs ! r) rs)[k := xs[rs ! k := v] ! (rs ! k)] ! i"
  proof (cases "i = k")
    case True
    then show ?thesis using i by simp
  next
    case False
    then have "rs ! i \<noteq> rs ! k"
      using assms i by (simp add: nth_eq_iff_index_eq)
    then show ?thesis using i False by simp
  qed
qed simp

lemma setitem_effect:
  assumes v: "valid_grid h a"
  shows "\<exists>h'. setitem h a (x, y) c = Inr h' \<and>
     grids h' = grids h \<and> outers h' = outers h \<and> length (rows h') = length (rows h) \<and>
     (\<forall>r. length (rows h' ! r) = length (rows h ! r)) \<and>
     cells h' a = (cells h a)[nat (y mod height (grids h ! a)) :=
        (cells h a ! nat (y mod height (grids h ! a)))[nat (x mod width (grids h ! a)) := c]]"
proof -
  let ?k = "nat (y mod height (grids h ! a))"
  let ?r = "grid_rows h a ! ?k"
  let ?i = "nat (x mod width (grids h ! a))"
  let ?row = "(rows h ! ?r)[?i := c]"
  let ?h' = "h\<lparr>rows := (rows h)[?r := ?row]\<rparr>"
  have k: "?k < length (grid_rows h a)" by (rule row_index [OF v])
  have r: "?r < length (rows h)" by (rule valid_gridD(8) [OF v k])
  have len: "length (rows ?h' ! r') = length (rows h ! r')" for r'
    using r by (cases "r' = ?r") simp_all
  have gr: "grid_rows ?h' a = grid_rows h a"
    by (simp add: grid_rows_def)
  have "cells ?h' a = map (\<lambda>r'. (rows h)[?r := ?row] ! r') (grid_rows h a)"
    by (simp add: cells_def gr)
  also have "\<dots> = (map (\<lambda>r'. rows h ! r') (grid_rows h a))[?k := (rows h)[?r := ?row] ! ?r]"
    by (rule map_nth_update_distinct [OF valid_gridD(7) [OF v] k])
  also have "(rows h)[?r := ?row] ! ?r = (cells h a ! ?k)[?i := c]"
    using r k by (simp add: cells_def)
  finally have c: "cells ?h' a = (cells h a)[?k := (cells h a ! ?k)[?i := c]]"
    by (simp add: cells_def)
  have "setitem h a (x, y) c = Inr ?h'" by (rule setitem_valid [OF v])
  moreover have "grids ?h' = grids h" "outers ?h' = outers h" "length (rows ?h') = length (rows h)"
    by simp_all
  ultimately show ?thesis
    using len c by (intro exI [of _ ?h'] conjI allI)
qed

lemma getitem_after_setitem:
  assumes v: "valid_grid h a" and v': "valid_grid h' a" and g: "grids h' = grids h"
    and c: "cells h' a = (cells h a)[nat (y mod height (grids h ! a)) :=
        (cells h a ! nat (y mod height (grids h ! a)))[nat (x mod width (grids h ! a)) := c]]"
  shows "getitem h' a (x', y') =
    (if x' mod width (grids h ! a) = x mod width (grids h ! a) \<and>
        y' mod height (grids h ! a) = y mod height (grids h ! a)
     then Inr c else getitem h a (x', y'))"
proof -
  let ?W = "width (grids h ! a)" and ?H = "height (grids h ! a)"
  have W: "0 < ?W" and H: "0 < ?H" using valid_gridD(2,3) [OF v] .
  have k: "nat (y mod ?H) < length (cells h a)"
    using H by (simp add: cells_shape(1) [OF v])
  have i: "nat (x mod ?W) < length (cells h a ! nat (y mod ?H))"
    using W H by (simp add: cells_shape(2) [OF v])
  have eqy: "nat (y mod ?H) = nat (y' mod ?H) \<longleftrightarrow> y' mod ?H = y mod ?H"
    using H by (auto simp: nat_eq_iff)
  have eqx: "nat (x mod ?W) = nat (x' mod ?W) \<longleftrightarrow> x' mod ?W = x mod ?W"
    using W by (auto simp: nat_eq_iff)
  show ?thesis
    unfolding getitem_valid [OF v] getitem_valid [OF v'] g c cell_at_def
    using k i by (simp add: nth_list_update eqx eqy)
qed

lemma add_pattern_Nil: "add_pattern h a [] x y = Inr h"
  by (simp add: add_pattern_def)

lemma add_pattern_Cons:
  "add_pattern h a (q # qs) x y =
     bind_r (setitem h a (x + fst q, y + snd q) FILLED) (\<lambda>h1. add_pattern h1 a qs x y)"
  by (simp add: add_pattern_def)

lemma add_pattern_effect:
  assumes v: "valid_grid h a"
  shows "\<exists>h'. add_pattern h a p x y = Inr h' \<and>
     grids h' = grids h \<and> outers h' = outers h \<and> length (rows h') = length (rows h) \<and>
     (\<forall>r. length (rows h' ! r) = length (rows h ! r)) \<and>
     (\<forall>t. getitem h' a t =
        (if \<exists>q\<in>set p. fst t mod width (grids h ! a) = (x + fst q) mod width (grids h ! a) \<and>
                        snd t mod height (grids h ! a) = (y + snd q) mod height (grids h ! a)
         then Inr FILLED else getitem h a t))"
  using v
proof (induction p arbitrary: h)
  case Nil
  show ?case unfolding add_pattern_Nil by simp
next
  case (Cons q qs)
  note v = \<open>valid_grid h a\<close>
  obtain h1 where h1: "setitem h a (x + fst q, y + snd q) FILLED = Inr h1"
    "grids h1 = grids h" "outers h1 = outers h" "length (rows h1) = length (rows h)"
    "\<And>r. length (rows h1 ! r) = length (rows h ! r)"
    "cells h1 a = (cells h a)[nat ((y + snd q) mod height (grids h ! a)) :=
        (cells h a ! nat ((y + snd q) mod height (grids h ! a)))
          [nat ((x + fst q) mod width (grids h ! a)) := FILLED]]"
    using setitem_effect [OF v, of "x + fst q" "y + snd q" FILLED] by blast
  have v1: "valid_grid h1 a"
    using v valid_grid_cong [OF h1(2,3,4,5)] by simp
  have get1: "getitem h1 a t =
    (if fst t mod width (grids h ! a) = (x + fst q) mod width (grids h ! a) \<and>
        snd t mod height (grids h ! a) = (y + snd q) mod height (grids h ! a)
     then Inr FILLED else getitem h a t)" for t
    using getitem_after_setitem [OF v v1 h1(2) h1(6), of "fst t" "snd t"] by simp
  obtain h' where h': "add_pattern h1 a qs x y = Inr h'"
    "grids h' = grids h1" "outers h' = outers h1" "length (rows h') = length (rows h1)"
    "\<And>r. length (rows h' ! r) = length (rows h1 ! r)"
    "\<And>t. getitem h' a t =
        (if \<exists>q\<in>set qs. fst t mod width (grids h1 ! a) = (x + fst q) mod width (grids h1 ! a) \<and>
                        snd t mod height (grids h1 ! a) = (y + snd q) mod height (grids h1 ! a)
         then Inr FILLED else getitem h1 a t)"
    using Cons.IH [OF v1] by blast
  have 1: "add_pattern h a (q # qs) x y = Inr h'"
    unfolding add_pattern_Cons h1(1) bind_r_Inr by (rule h'(1))
  have 2: "grids h' = grids h" "outers h' = outers h" "length (rows h') = length (rows h)"
    "\<forall>r. length (rows h' ! r) = length (rows h ! r)"
    by (simp_all add: h'(2-5) h1(2-5))
  have 3: "\<forall>t. getitem h' a t =
        (if \<exists>q'\<in>set (q # qs).
              fst t mod width (grids h ! a) = (x + fst q') mod width (grids h ! a) \<and>
              snd t mod height (grids h ! a) = (y + snd q') mod height (grids h ! a)
         then Inr FILLED else getitem h a t)"
    unfolding h'(6) get1 h1(2) by auto
  from 1 2 3 show ?case by (intro exI [of _ h'] conjI)
qed

lemma add_pattern_noop:
  assumes "valid_grid h a" "\<forall>q\<in>set p. getitem h a (x + fst q, y + snd q) = Inr FILLED"
  shows "add_pattern h a p x y = Inr h"
  using assms(2)
proof (induction p)
  case Nil
  show ?case by (rule add_pattern_Nil)
next
  case (Cons q qs)
  have "setitem h a (x + fst q, y + snd q) FILLED = Inr h"
    using Cons.prems by (intro setitem_same [OF assms(1)]) simp
  then show ?case
    unfolding add_pattern_Cons using Cons by simp
qed

text \<open>
  C7: on a well-formed grid, \<open>add_pattern\<close> with a pattern and an anchor succeeds, and a
  second call with the same arguments returns the store of the first call unchanged.
\<close>

theorem add_pattern_idempotent:
  assumes v: "valid_grid h g"
  shows "\<exists>h1. add_pattern h g p x y = Inr h1 \<and> add_pattern h1 g p x y = Inr h1"
proof -
  obtain h1 where h1: "add_pattern h g p x y = Inr h1"
    "grids h1 = grids h" "outers h1 = outers h" "length (rows h1) = length (rows h)"
    "\<And>r. length (rows h1 ! r) = length (rows h ! r)"
    "\<And>t. getitem h1 g t =
        (if \<exists>q\<in>set p. fst t mod width (grids h ! g) = (x + fst q) mod width (grids h ! g) \<and>
                        snd t mod height (grids h ! g) = (y + snd q) mod height (grids h ! g)
         then Inr FILLED else getitem h g t)"
    using add_pattern_effect [OF v, of p x y] by blast
  have v1: "valid_grid h1 g"
    using v valid_grid_cong [OF h1(2,3,4,5)] by simp
  have "\<forall>q\<in>set p. getitem h1 g (x + fst q, y + snd q) = Inr FILLED"
    unfolding h1(6) by auto
  then have "add_pattern h1 g p x y = Inr h1"
    by (rule add_pattern_noop [OF v1])
  with h1(1) show ?thesis by blast
qed

theorem add_pattern_idempotent_witness:
  "valid_grid blinker_store 0 \<and>
   (\<exists>h1. add_pattern blinker_store 0 PATTERN_BLOCK 4 4 = Inr h1 \<and>
      add_pattern h1 0 PATTERN_BLOCK 4 4 = Inr h1)"
  by (rule conjI [OF valid_blinker_store add_pattern_idempotent [OF valid_blinker_store]])

lemma step_getitem:
  assumes v: "valid_grid h g"
  shows "\<exists>h'. step h g = Inr (length (grids h), h') \<and>
     objects_preserved h h' \<and>
     valid_grid h' (length (grids h)) \<and>
     width (grids h' ! length (grids h)) = width (grids h ! g) \<and>
     height (grids h' ! length (grids h)) = height (grids h ! g) \<and>
     (\<forall>i j. 0 \<le> i \<and> i < width (grids h ! g) \<and> 0 \<le> j \<and> j < height (grids h ! g) \<longrightarrow>
        getitem h' (length (grids h)) (i, j) =
          Inr (new_cell (cells h g) (width (grids h ! g)) (height (grids h ! g)) i j))"
proof -
  define M where "M = next_cells (cells h g) (width (grids h ! g)) (height (grids h ! g))"
  define h' where "h' = step_heap h g M"
  note r = step_result [OF v, folded M_def, folded h'_def]
  have p: "objects_preserved h h'"
    unfolding h'_def by (rule step_heap_preserved)
  have "getitem h' (length (grids h)) (i, j) =
          Inr (new_cell (cells h g) (width (grids h ! g)) (height (grids h ! g)) i j)"
    if "0 \<le> i \<and> i < width (grids h ! g) \<and> 0 \<le> j \<and> j < height (grids h ! g)" for i j
    using that
    by (simp add: getitem_valid [OF r(2)] r(3,5,6) cell_at_def M_def next_cells_nth)
  then have "\<forall>i j. 0 \<le> i \<and> i < width (grids h ! g) \<and> 0 \<le> j \<and> j < height (grids h ! g) \<longrightarrow>
        getitem h' (length (grids h)) (i, j) =
          Inr (new_cell (cells h g) (width (grids h ! g)) (height (grids h ! g)) i j)"
    by (intro allI impI)
  with r(1) p r(2,5,6) show ?thesis
    by (intro exI [of _ h'] conjI)
qed

subsection \<open>The shape invariant\<close>




subsection \<open>The cell states\<close>

text \<open>
  C10: when every cell of a well-formed grid is \<open>EMPTY\<close> or \<open>FILLED\<close>, every cell of the
  result of \<open>step\<close> is \<open>EMPTY\<close> or \<open>FILLED\<close>; after \<open>add_pattern\<close> every cell is \<open>FILLED\<close>
  or holds what it held before, so every cell is \<open>EMPTY\<close> or \<open>FILLED\<close> again.
\<close>

theorem cell_states_closed:
  assumes v: "valid_grid h g"
    and dom: "all_cells h g (\<lambda>x y c. c = Inr EMPTY \<or> c = Inr FILLED)"
  shows "(\<exists>h'. step h g = Inr (length (grids h), h') \<and>
        all_cells h' (length (grids h)) (\<lambda>x y c. c = Inr EMPTY \<or> c = Inr FILLED)) \<and>
     (\<exists>h'. add_pattern h g p x y = Inr h' \<and>
        all_cells h' g (\<lambda>i j c. c = Inr FILLED \<or> c = getitem h g (i, j)) \<and>
        all_cells h' g (\<lambda>x y c. c = Inr EMPTY \<or> c = Inr FILLED))"
proof
  let ?W = "width (grids h ! g)" and ?H = "height (grids h ! g)"
  obtain h' where h': "step h g = Inr (length (grids h), h')"
    "width (grids h' ! length (grids h)) = ?W" "height (grids h' ! length (grids h)) = ?H"
    "\<forall>i j. 0 \<le> i \<and> i < ?W \<and> 0 \<le> j \<and> j < ?H \<longrightarrow>
        getitem h' (length (grids h)) (i, j) = Inr (new_cell (cells h g) ?W ?H i j)"
    using step_getitem [OF v] by blast
  have "all_cells h' (length (grids h)) (\<lambda>x y c. c = Inr EMPTY \<or> c = Inr FILLED)"
  proof (rule all_cellsI)
    fix i j
    assume ij: "0 \<le> i" "i < width (grids h' ! length (grids h))"
      "0 \<le> j" "j < height (grids h' ! length (grids h))"
    then have new: "getitem h' (length (grids h)) (i, j) = Inr (new_cell (cells h g) ?W ?H i j)"
      using h'(4) unfolding h'(2,3) by blast
    have "getitem h g (i, j) = Inr EMPTY \<or> getitem h g (i, j) = Inr FILLED"
      using ij unfolding h'(2,3) by (intro all_cellsD [OF dom])
    then have "cell_at (cells h g) ?W ?H i j = EMPTY \<or> cell_at (cells h g) ?W ?H i j = FILLED"
      unfolding getitem_valid [OF v] by simp
    then show "getitem h' (length (grids h)) (i, j) = Inr EMPTY \<or>
        getitem h' (length (grids h)) (i, j) = Inr FILLED"
      unfolding new by (auto simp: new_cell_def Let_def)
  qed
  with h'(1) show "\<exists>h'. step h g = Inr (length (grids h), h') \<and>
        all_cells h' (length (grids h)) (\<lambda>x y c. c = Inr EMPTY \<or> c = Inr FILLED)"
    by blast
next
  obtain h' where h': "add_pattern h g p x y = Inr h'" "grids h' = grids h"
    "\<And>t. getitem h' g t =
        (if \<exists>q\<in>set p. fst t mod width (grids h ! g) = (x + fst q) mod width (grids h ! g) \<and>
                        snd t mod height (grids h ! g) = (y + snd q) mod height (grids h ! g)
         then Inr FILLED else getitem h g t)"
    using add_pattern_effect [OF v, of p x y] by blast
  have 1: "all_cells h' g (\<lambda>i j c. c = Inr FILLED \<or> c = getitem h g (i, j))"
    by (rule all_cellsI) (simp add: h'(3))
  have 2: "all_cells h' g (\<lambda>x y c. c = Inr EMPTY \<or> c = Inr FILLED)"
  proof (rule all_cellsI)
    fix i j
    assume ij: "0 \<le> i" "i < width (grids h' ! g)" "0 \<le> j" "j < height (grids h' ! g)"
    have "getitem h g (i, j) = Inr EMPTY \<or> getitem h g (i, j) = Inr FILLED"
      using ij unfolding h'(2) by (intro all_cellsD [OF dom])
    then show "getitem h' g (i, j) = Inr EMPTY \<or> getitem h' g (i, j) = Inr FILLED"
      unfolding h'(3) by auto
  qed
  from h'(1) 1 2 show "\<exists>h'. add_pattern h g p x y = Inr h' \<and>
        all_cells h' g (\<lambda>i j c. c = Inr FILLED \<or> c = getitem h g (i, j)) \<and>
        all_cells h' g (\<lambda>x y c. c = Inr EMPTY \<or> c = Inr FILLED)"
    by (intro exI [of _ h'] conjI)
qed

lemma blinker_store_domain:
  "all_cells blinker_store 0 (\<lambda>x y c. c = Inr EMPTY \<or> c = Inr FILLED)"
  by (simp add: all_cells_def getitem_valid [OF valid_blinker_store] cell_at_def)
    (simp add: blinker_store_def cells_def grid_rows_def py_range_def upt_rec)

theorem cell_states_closed_witness:
  "(valid_grid blinker_store 0 \<and>
    all_cells blinker_store 0 (\<lambda>x y c. c = Inr EMPTY \<or> c = Inr FILLED)) \<and>
   ((\<exists>h'. step blinker_store 0 = Inr (length (grids blinker_store), h') \<and>
        all_cells h' (length (grids blinker_store)) (\<lambda>x y c. c = Inr EMPTY \<or> c = Inr FILLED)) \<and>
     (\<exists>h'. add_pattern blinker_store 0 PATTERN_GLIDER 3 3 = Inr h' \<and>
        all_cells h' 0 (\<lambda>i j c. c = Inr FILLED \<or> c = getitem blinker_store 0 (i, j)) \<and>
        all_cells h' 0 (\<lambda>x y c. c = Inr EMPTY \<or> c = Inr FILLED)))"
  by (rule conjI [OF conjI [OF valid_blinker_store blinker_store_domain]
        cell_states_closed [OF valid_blinker_store blinker_store_domain]])


subsection \<open>Rounding errors of the floats\<close>

text \<open>
  The program computes \<open>cos\<close> and \<open>sin\<close> in floating point. \<open>round_out\<close> gives the same
  offsets for every pair of values of magnitude at most 1 that are within \<open>1 / 10 ^ 11\<close> of
  the exact cosine and sine.
\<close>

lemma round_out_float_noise:
  assumes c: "\<bar>c\<bar> \<le> 1" and near: "\<bar>c - v\<bar> \<le> 1 / 10 ^ 11"
    and v: "v \<in> {0, 1, - 1, sqrt 2 / 2, - (sqrt 2 / 2)}"
  shows "round_out c = round_out v"
proof -
  have e: "(1::real) / 10 ^ 11 < 1 / 10 ^ 10" "(1::real) / 10 ^ 10 + 1 / 10 ^ 11 \<le> 1 / 2"
    by simp_all
  have s: "1 / 2 \<le> sqrt 2 / 2"
    by simp
  consider "v = 0" | "v = 1" | "v = - 1" | "v = sqrt 2 / 2" | "v = - (sqrt 2 / 2)"
    using v by blast
  then show ?thesis
  proof cases
    case 1
    then have "\<bar>c\<bar> < 1 / 10 ^ 10" using near e by linarith
    then show ?thesis by (simp add: round_out_small 1 round_out_unit)
  next
    case 2
    then have "1 / 10 ^ 10 \<le> c" "c \<le> 1" using near e c by linarith+
    then show ?thesis by (simp add: round_out_pos 2 round_out_unit del: power_numeral)
  next
    case 3
    then have "c \<le> - (1 / 10 ^ 10)" "- 1 \<le> c" using near e c by linarith+
    then show ?thesis by (simp add: round_out_neg 3 round_out_unit del: power_numeral)
  next
    case 4
    then have "1 / 10 ^ 10 \<le> c" "c \<le> 1" using near e c s by linarith+
    then show ?thesis by (simp add: round_out_pos 4 round_out_sqrt2_half del: power_numeral)
  next
    case 5
    then have "c \<le> - (1 / 10 ^ 10)" "- 1 \<le> c" using near e c s by linarith+
    then show ?thesis by (simp add: round_out_neg 5 round_out_sqrt2_half del: power_numeral)
  qed
qed

lemma trig_values:
  assumes "n \<in> set (py_range 8)"
  shows "cos (of_int n * pi / 4) \<in> {0, 1, - 1, sqrt 2 / 2, - (sqrt 2 / 2)}"
    and "sin (of_int n * pi / 4) \<in> {0, 1, - 1, sqrt 2 / 2, - (sqrt 2 / 2)}"
proof -
  have n: "n \<in> set [0, 1, 2, 3, 4, 5, 6, 7]"
    using assms unfolding py_range_8 .
  show "cos (of_int n * pi / 4) \<in> {0, 1, - 1, sqrt 2 / 2, - (sqrt 2 / 2)}"
    using n by (auto simp add: cos_45 cos_135 cos_225 cos_270 cos_315)
  show "sin (of_int n * pi / 4) \<in> {0, 1, - 1, sqrt 2 / 2, - (sqrt 2 / 2)}"
    using n by (auto simp add: sin_45 sin_135 sin_225 sin_270 sin_315)
qed

lemma neighbour_offset_float_noise:
  assumes "n \<in> set (py_range 8)" "\<bar>c\<bar> \<le> 1" "\<bar>s\<bar> \<le> 1"
    and "\<bar>c - cos (of_int n * pi / 4)\<bar> \<le> 1 / 10 ^ 11"
    and "\<bar>s - sin (of_int n * pi / 4)\<bar> \<le> 1 / 10 ^ 11"
  shows "(round_out c, round_out s) = neighbour_offset n"
  unfolding neighbour_offset_def
  using round_out_float_noise [OF assms(2,4) trig_values(1) [OF assms(1)]]
    round_out_float_noise [OF assms(3,5) trig_values(2) [OF assms(1)]]
  by simp

subsection \<open>The trigonometric enumeration and the fixed table\<close>

lemma count_loop_with_map:
  "count_loop_with fcos fsin h g i j ns k =
     spec_count_loop h g i j (map (\<lambda>n. (round_out (fcos n), round_out (fsin n))) ns) k"
  by (induction ns arbitrary: k) (simp_all add: Let_def)

lemma count_loop_is_with:
  "count_loop h g i j ns k =
     count_loop_with (\<lambda>n. cos (of_int n * pi / 4)) (\<lambda>n. sin (of_int n * pi / 4)) h g i j ns k"
  by (induction ns arbitrary: k) (simp_all add: Let_def)

lemma step_cell_is_with:
  "step_cell grid next i j h =
     step_cell_with (\<lambda>n. cos (of_int n * pi / 4)) (\<lambda>n. sin (of_int n * pi / 4)) grid next i j h"
  unfolding step_cell_def step_cell_with_def count_loop_is_with by (rule refl)

lemma step_is_with:
  "step h g = step_with (\<lambda>n. cos (of_int n * pi / 4)) (\<lambda>n. sin (of_int n * pi / 4)) h g"
proof -
  have "step_cell grid nxt i =
      step_cell_with (\<lambda>n. cos (of_int n * pi / 4)) (\<lambda>n. sin (of_int n * pi / 4)) grid nxt i"
    for grid nxt i
    by (intro ext) (rule step_cell_is_with)
  then show ?thesis
    unfolding step_def step_with_def by simp
qed

lemma accurate_offsets:
  assumes "accurate fcos fsin"
  shows "map (\<lambda>n. (round_out (fcos n), round_out (fsin n))) (py_range 8) = spec_moore_offsets"
proof -
  have "(round_out (fcos n), round_out (fsin n)) = neighbour_offset n"
    if "n \<in> set (py_range 8)" for n
    using assms that unfolding accurate_def list_all_iff
    by (intro neighbour_offset_float_noise) blast+
  then have "map (\<lambda>n. (round_out (fcos n), round_out (fsin n))) (py_range 8) =
      map neighbour_offset (py_range 8)"
    by (intro map_cong refl)
  then show ?thesis
    unfolding neighbour_offset_table .
qed

lemma step_cell_with_accurate:
  assumes "accurate fcos fsin"
  shows "step_cell_with fcos fsin grid next i j h = spec_step_cell grid next i j h"
  unfolding step_cell_with_def spec_step_cell_def count_loop_with_map accurate_offsets [OF assms]
  by (rule refl)

lemma step_with_accurate:
  assumes "accurate fcos fsin"
  shows "step_with fcos fsin h g = spec_step h g"
proof -
  have "step_cell_with fcos fsin grid nxt i = spec_step_cell grid nxt i" for grid nxt i
    by (intro ext) (rule step_cell_with_accurate [OF assms])
  then show ?thesis
    unfolding step_with_def spec_step_def by simp
qed

lemma accurate_exact:
  "accurate (\<lambda>n. cos (of_int n * pi / 4)) (\<lambda>n. sin (of_int n * pi / 4))"
  by (simp add: accurate_def list_all_iff)

text \<open>
  So \<open>step\<close> over accurate computed values is \<open>step\<close> over the exact ones, and what is
  proved of \<open>step\<close> holds of it.
\<close>

lemma step_with_is_step:
  assumes "accurate fcos fsin"
  shows "step_with fcos fsin h g = step h g"
  unfolding step_is_with step_with_accurate [OF assms] step_with_accurate [OF accurate_exact]
  by (rule refl)

lemma sqrt2_half_digits:
  "707106781185 / 10 ^ 12 \<le> sqrt 2 / 2" "sqrt 2 / 2 \<le> 70710678119 / 10 ^ 11"
proof -
  have "141421356237 / 10 ^ 11 \<le> sqrt 2"
    by (rule real_le_rsqrt) (simp add: power2_eq_square)
  then show "707106781185 / 10 ^ 12 \<le> sqrt 2 / 2" by simp
  have "sqrt 2 \<le> 141421356238 / 10 ^ 11"
    by (rule real_le_lsqrt) (simp_all add: power2_eq_square)
  then show "sqrt 2 / 2 \<le> 70710678119 / 10 ^ 11" by simp
qed

lemma near_sqrt2_half:
  assumes "70710678118 / 10 ^ 11 \<le> c" "c \<le> 70710678119 / 10 ^ 11"
  shows "\<bar>c\<bar> \<le> 1" "\<bar>c - sqrt 2 / 2\<bar> \<le> 1 / 10 ^ 11"
    "\<bar>- c\<bar> \<le> 1" "\<bar>- c - - (sqrt 2 / 2)\<bar> \<le> 1 / 10 ^ 11"
proof -
  have d: "c - sqrt 2 / 2 \<le> 1 / 10 ^ 11" "sqrt 2 / 2 - c \<le> 1 / 10 ^ 11"
    using assms sqrt2_half_digits by simp_all
  show "\<bar>c\<bar> \<le> 1" "\<bar>- c\<bar> \<le> 1"
    using assms by simp_all
  show "\<bar>c - sqrt 2 / 2\<bar> \<le> 1 / 10 ^ 11"
    using d by (intro abs_leI) simp_all
  show "\<bar>- c - - (sqrt 2 / 2)\<bar> \<le> 1 / 10 ^ 11"
    using d by (intro abs_leI) simp_all
qed

lemma doubles_near:
  "70710678118 / 10 ^ 11 \<le> (6369051672525773 / 2 ^ 53 :: real)"
  "(6369051672525773 / 2 ^ 53 :: real) \<le> 70710678119 / 10 ^ 11"
  "70710678118 / 10 ^ 11 \<le> (1592262918131443 / 2 ^ 51 :: real)"
  "(1592262918131443 / 2 ^ 51 :: real) \<le> 70710678119 / 10 ^ 11"
  "70710678118 / 10 ^ 11 \<le> (3184525836262887 / 2 ^ 52 :: real)"
  "(3184525836262887 / 2 ^ 52 :: real) \<le> 70710678119 / 10 ^ 11"
  "70710678118 / 10 ^ 11 \<le> (6369051672525771 / 2 ^ 53 :: real)"
  "(6369051672525771 / 2 ^ 53 :: real) \<le> 70710678119 / 10 ^ 11"
  by simp_all

lemma double_values:
  "double_cos 0 = 1" "double_sin 0 = 0"
  "double_cos 1 = 6369051672525773 / 2 ^ 53" "double_sin 1 = 1592262918131443 / 2 ^ 51"
  "double_cos 2 = 4967757600021511 / 2 ^ 106" "double_sin 2 = 1"
  "double_cos 3 = - (1592262918131443 / 2 ^ 51)" "double_sin 3 = 6369051672525773 / 2 ^ 53"
  "double_cos 4 = - 1" "double_sin 4 = 4967757600021511 / 2 ^ 105"
  "double_cos 5 = - (3184525836262887 / 2 ^ 52)" "double_sin 5 = - (1592262918131443 / 2 ^ 51)"
  "double_cos 6 = - (3725818200016133 / 2 ^ 104)" "double_sin 6 = - 1"
  "double_cos 7 = 6369051672525771 / 2 ^ 53" "double_sin 7 = - (3184525836262887 / 2 ^ 52)"
  unfolding double_cos_def double_sin_def by simp_all

lemma tiny_doubles:
  "\<bar>4967757600021511 / 2 ^ 106 :: real\<bar> \<le> 1 / 10 ^ 11"
  "\<bar>4967757600021511 / 2 ^ 105 :: real\<bar> \<le> 1 / 10 ^ 11"
  "\<bar>- (3725818200016133 / 2 ^ 104) :: real\<bar> \<le> 1 / 10 ^ 11"
  by simp_all

lemma near_zero:
  assumes "\<bar>c :: real\<bar> \<le> 1 / 10 ^ 11"
  shows "\<bar>c\<bar> \<le> 1" "\<bar>c - 0\<bar> \<le> 1 / 10 ^ 11"
proof -
  have "(1::real) / 10 ^ 11 \<le> 1" by simp
  with assms show "\<bar>c\<bar> \<le> 1" by (rule order_trans)
  show "\<bar>c - 0\<bar> \<le> 1 / 10 ^ 11" using assms by simp
qed

lemma near_unit:
  "\<bar>1 :: real\<bar> \<le> 1" "\<bar>1 - 1 :: real\<bar> \<le> 1 / 10 ^ 11"
  "\<bar>- 1 :: real\<bar> \<le> 1" "\<bar>- 1 - - 1 :: real\<bar> \<le> 1 / 10 ^ 11"
  "\<bar>0 :: real\<bar> \<le> 1" "\<bar>0 - 0 :: real\<bar> \<le> 1 / 10 ^ 11"
  by simp_all

lemma trig_eighths:
  "cos (of_int 0 * pi / 4) = 1" "sin (of_int 0 * pi / 4) = 0"
  "cos (of_int 1 * pi / 4) = sqrt 2 / 2" "sin (of_int 1 * pi / 4) = sqrt 2 / 2"
  "cos (of_int 2 * pi / 4) = 0" "sin (of_int 2 * pi / 4) = 1"
  "cos (of_int 3 * pi / 4) = - (sqrt 2 / 2)" "sin (of_int 3 * pi / 4) = sqrt 2 / 2"
  "cos (of_int 4 * pi / 4) = - 1" "sin (of_int 4 * pi / 4) = 0"
  "cos (of_int 5 * pi / 4) = - (sqrt 2 / 2)" "sin (of_int 5 * pi / 4) = - (sqrt 2 / 2)"
  "cos (of_int 6 * pi / 4) = 0" "sin (of_int 6 * pi / 4) = - 1"
  "cos (of_int 7 * pi / 4) = sqrt 2 / 2" "sin (of_int 7 * pi / 4) = - (sqrt 2 / 2)"
  by (simp_all add: cos_45 sin_45 cos_135 sin_135 cos_225 sin_225 cos_270 sin_270 cos_315 sin_315)

lemma accurate_doubles: "accurate double_cos double_sin"
  unfolding accurate_def py_range_8 list_all_Cons_iff list_all_Nil_iff double_values trig_eighths
  by (intro conjI TrueI near_unit near_zero [OF tiny_doubles(1)] near_zero [OF tiny_doubles(2)]
      near_zero [OF tiny_doubles(3)]
      near_sqrt2_half [OF doubles_near(1,2)] near_sqrt2_half [OF doubles_near(3,4)]
      near_sqrt2_half [OF doubles_near(5,6)] near_sqrt2_half [OF doubles_near(7,8)])

text \<open>
  C5: the eight pairs \<open>round_out(cos(n*pi/4))\<close>, \<open>round_out(sin(n*pi/4))\<close> for \<open>n\<close> from 0 to 7
  are the fixed table (1,0), (1,1), (0,1), (-1,1), (-1,0), (-1,-1), (0,-1), (1,-1), in this
  order; the counting loop of \<open>step\<close> is the loop over that table, and \<open>step\<close> is \<open>step\<close> with
  the table, for every store and grid. The same holds when the cosines and sines are any
  computed values of magnitude at most 1 within \<open>1 / 10 ^ 11\<close> of the exact ones.
\<close>

theorem step_enumeration_is_table:
  "map (\<lambda>n. (round_out (cos (of_int n * pi / 4)), round_out (sin (of_int n * pi / 4))))
     (py_range 8) = spec_moore_offsets \<and>
   count_loop h g i j (py_range 8) k = spec_count_loop h g i j spec_moore_offsets k \<and>
   step h g = spec_step h g \<and>
   (accurate fcos fsin \<longrightarrow>
      map (\<lambda>n. (round_out (fcos n), round_out (fsin n))) (py_range 8) = spec_moore_offsets \<and>
      count_loop_with fcos fsin h g i j (py_range 8) k =
        spec_count_loop h g i j spec_moore_offsets k \<and>
      step_with fcos fsin h g = spec_step h g)"
proof (intro conjI impI)
  show 1: "map (\<lambda>n. (round_out (cos (of_int n * pi / 4)), round_out (sin (of_int n * pi / 4))))
     (py_range 8) = spec_moore_offsets"
    by (rule accurate_offsets [OF accurate_exact])
  show "count_loop h g i j (py_range 8) k = spec_count_loop h g i j spec_moore_offsets k"
    unfolding count_loop_is_with count_loop_with_map 1 by (rule refl)
  show "step h g = spec_step h g"
    unfolding step_is_with by (rule step_with_accurate [OF accurate_exact])
next
  assume a: "accurate fcos fsin"
  show 2: "map (\<lambda>n. (round_out (fcos n), round_out (fsin n))) (py_range 8) = spec_moore_offsets"
    by (rule accurate_offsets [OF a])
  show "count_loop_with fcos fsin h g i j (py_range 8) k =
        spec_count_loop h g i j spec_moore_offsets k"
    unfolding count_loop_with_map 2 by (rule refl)
  show "step_with fcos fsin h g = spec_step h g"
    by (rule step_with_accurate [OF a])
qed

theorem step_enumeration_is_table_witness:
  "accurate double_cos double_sin \<and>
   map (\<lambda>n. (round_out (double_cos n), round_out (double_sin n))) (py_range 8) =
     spec_moore_offsets \<and>
   count_loop_with double_cos double_sin blinker_store 0 1 2 (py_range 8) 0 =
     spec_count_loop blinker_store 0 1 2 spec_moore_offsets 0 \<and>
   step_with double_cos double_sin blinker_store 0 = spec_step blinker_store 0"
  by (rule conjI [OF accurate_doubles
        step_enumeration_is_table [where fcos = double_cos and fsin = double_sin
          and h = blinker_store and g = 0 and i = 1 and j = 2 and k = 0,
          THEN conjunct2, THEN conjunct2, THEN conjunct2, THEN mp, OF accurate_doubles]])

end
